theory Spec2Isabelle
  imports Complex_Main "HOL-Library.AList"
begin

section \<open>Configuration values\<close>

text \<open>
  The values a configuration file can hold, as Python objects: \<open>None\<close>, booleans,
  integers, floats (only stored and compared here, never computed with), strings, lists,
  tuples and dictionaries with string keys. A dictionary is an association list in
  insertion order, which is the order \<open>dict.items()\<close> iterates in.
\<close>

datatype val =
    VNone
  | VBool bool
  | VInt int
  | VFloat real
  | VStr string
  | VList "val list"
  | VTuple "val list"
  | VDict "(string \<times> val) list"

type_synonym dict = "(string \<times> val) list"

text \<open>The exceptions the module raises or lets through, with their message where it has one.\<close>

datatype error =
    AttributeError
  | TypeError
  | KeyError string
  | FileNotFoundError string
  | IOError string
  | ImportFailure string
  | ParseFailure string

text \<open>\<open>k in d\<close>, \<open>d[k]\<close>, \<open>d[k] = v\<close> and \<open>d.pop(k, default)\<close> on a dictionary.\<close>

definition has_key :: "dict \<Rightarrow> string \<Rightarrow> bool" where
  "has_key d k = (k \<in> set (map fst d))"

definition getitem :: "dict \<Rightarrow> string \<Rightarrow> error + val" where
  "getitem d k = (case map_of d k of None \<Rightarrow> Inl (KeyError k) | Some v \<Rightarrow> Inr v)"

definition setitem :: "dict \<Rightarrow> string \<Rightarrow> val \<Rightarrow> dict" where
  "setitem d k v = AList.update k v d"

definition pop_key :: "string \<Rightarrow> dict \<Rightarrow> dict" where
  "pop_key k d = AList.delete k d"

text \<open>\<open>isinstance(v, dict)\<close>, and the items of a value that is a dictionary.\<close>

fun is_dict :: "val \<Rightarrow> bool" where
  "is_dict (VDict d) = True"
| "is_dict _ = False"

fun dict_items :: "val \<Rightarrow> dict" where
  "dict_items (VDict d) = d"
| "dict_items _ = []"

lemma size_pop_key_le:
  "size_list f (pop_key k d) \<le> size_list f d"
  by (induction d) (auto simp: pop_key_def)

lemma size_dict_items:
  "is_dict v \<Longrightarrow> size_list (size_prod (\<lambda>_. 0) size) (dict_items v) < size v"
  by (cases v) simp_all

section \<open>Deep merge\<close>

text \<open>
  \<^verbatim>\<open>
  def merge_a_into_b(a: dict, b: dict) -> dict:
      b = b.copy()
      for k, v in a.items():
          if isinstance(v, dict) and k in b:
              v.pop("_delete_", False)
              b[k] = merge_a_into_b(v, b[k])
          else:
              b[k] = v
      return b
  \<close>
  The recursive call passes \<open>b[k]\<close>, which need not be a dictionary, so the second argument
  is any value. \<open>b.copy()\<close> exists for dictionaries and lists only and raises
  \<open>AttributeError\<close> on every other value. On a copied list the loop body raises
  \<open>TypeError\<close> at its first item, in either branch (\<open>b[k]\<close> and \<open>b[k] = v\<close> index a list
  with a string), so a list comes back only when \<open>a\<close> is empty.

  \<open>v.pop\<close> writes to the nested dictionary of \<open>a\<close>, so the function returns the state of
  \<open>a\<close> after the call next to its result. Values are trees here: this is the merge of
  arguments that share no dictionary, as two files give them. Which objects a call writes
  to when they are shared is the subject of the section on the store. \<open>merge_items\<close> is the \<open>for\<close> loop: its first
  argument is the items still to visit, its second the copy of \<open>b\<close> built so far.
\<close>

function (sequential)
  merge_a_into_b :: "dict \<Rightarrow> val \<Rightarrow> error + (dict \<times> val)" and
  merge_items :: "dict \<Rightarrow> dict \<Rightarrow> error + (dict \<times> dict)"
where
  "merge_a_into_b a (VDict b) =
     (case merge_items a b of
        Inl e \<Rightarrow> Inl e
      | Inr (a', b') \<Rightarrow> Inr (a', VDict b'))"
| "merge_a_into_b a (VList xs) = (if a = [] then Inr ([], VList xs) else Inl TypeError)"
| "merge_a_into_b a _ = Inl AttributeError"
| "merge_items [] b = Inr ([], b)"
| "merge_items ((k, v) # rest) b =
     (if is_dict v \<and> has_key b k then
        (let v1 = pop_key ''_delete_'' (dict_items v) in
         case getitem b k of
           Inl e \<Rightarrow> Inl e
         | Inr bk \<Rightarrow>
            (case merge_a_into_b v1 bk of
               Inl e \<Rightarrow> Inl e
             | Inr (v2, r) \<Rightarrow>
                (case merge_items rest (setitem b k r) of
                   Inl e \<Rightarrow> Inl e
                 | Inr (rest', b') \<Rightarrow> Inr ((k, VDict v2) # rest', b'))))
      else
        (case merge_items rest (setitem b k v) of
           Inl e \<Rightarrow> Inl e
         | Inr (rest', b') \<Rightarrow> Inr ((k, v) # rest', b')))"
  by pat_completeness auto

termination
proof (relation "measure (\<lambda>x. case x of
          Inl (a, b) \<Rightarrow> 2 * size_list (size_prod (\<lambda>_. 0) size) a + 1
        | Inr (a, b) \<Rightarrow> 2 * size_list (size_prod (\<lambda>_. 0) size) a)", goal_cases)
  case 1
  show ?case by simp
next
  case (2 a b)
  show ?case by simp
next
  case (3 k v rest b x bk)
  have "size_list (size_prod (\<lambda>_. 0) size) (pop_key ''_delete_'' (dict_items v))
          \<le> size_list (size_prod (\<lambda>_. 0) size) (dict_items v)"
    by (rule size_pop_key_le)
  moreover have "size_list (size_prod (\<lambda>_. 0) size) (dict_items v) < size v"
    using 3 by (simp add: size_dict_items)
  ultimately show ?case using 3 by simp
qed simp_all

subsection \<open>Well-formed values and the vocabulary of the merge claims\<close>

text \<open>
  The keys of a Python dictionary are distinct. The association lists that stand for
  dictionaries are well formed when that holds for every dictionary inside a value.
\<close>

fun wf_val :: "val \<Rightarrow> bool" where
  "wf_val (VDict d) = (distinct (map fst d) \<and> (\<forall>v \<in> set (map snd d). wf_val v))"
| "wf_val (VList xs) = (\<forall>v \<in> set xs. wf_val v)"
| "wf_val (VTuple xs) = (\<forall>v \<in> set xs. wf_val v)"
| "wf_val _ = True"

lemma size_pop_item:
  assumes "kv \<in> set a" and "is_dict (snd kv)"
  shows "size_list (size_prod (\<lambda>_. 0) size) (pop_key k (dict_items (snd kv)))
           < size_list (size_prod (\<lambda>_. 0) size) a"
proof -
  have "size_list (size_prod (\<lambda>_. 0) size) (pop_key k (dict_items (snd kv)))
         \<le> size_list (size_prod (\<lambda>_. 0) size) (dict_items (snd kv))"
    by (rule size_pop_key_le)
  also have "\<dots> < size (snd kv)"
    using assms(2) by (rule size_dict_items)
  also have "\<dots> \<le> size_prod (\<lambda>_. 0) size kv"
    by (cases kv) simp
  also have "\<dots> \<le> size_list (size_prod (\<lambda>_. 0) size) a"
    using assms(1) by (induction a) auto
  finally show ?thesis .
qed

text \<open>
  The overlay as \<open>merge_a_into_b a b\<close> leaves it: \<open>_delete_\<close> is gone from each nested
  dictionary of \<open>a\<close> that the merge descends into, which are the dictionary values of \<open>a\<close>
  whose key \<open>b\<close> has too, at every depth; everything else is as it was.
\<close>

function (sequential) overlay_after :: "dict \<Rightarrow> val \<Rightarrow> dict" where
  "overlay_after a (VDict b) =
     map (\<lambda>kv. case map_of b (fst kv) of
                 None \<Rightarrow> kv
               | Some bk \<Rightarrow>
                   if is_dict (snd kv)
                   then (fst kv, VDict (overlay_after (pop_key ''_delete_'' (dict_items (snd kv))) bk))
                   else kv) a"
| "overlay_after a _ = a"
  by pat_completeness auto

termination
  by (relation "measure (\<lambda>(a, b). size_list (size_prod (\<lambda>_. 0) size) a)")
     (auto simp: size_pop_item)

text \<open>
  The pairs on which the merge returns: wherever it descends, the value of \<open>b\<close> is a
  dictionary again, or a list met by a dictionary of \<open>a\<close> that is empty once \<open>_delete_\<close>
  is popped.
\<close>

function (sequential) mergeable :: "dict \<Rightarrow> val \<Rightarrow> bool" where
  "mergeable a (VDict b) =
     (\<forall>kv \<in> set a. case map_of b (fst kv) of
                 None \<Rightarrow> True
               | Some bk \<Rightarrow>
                   is_dict (snd kv) \<longrightarrow> mergeable (pop_key ''_delete_'' (dict_items (snd kv))) bk)"
| "mergeable a (VList xs) = (a = [])"
| "mergeable a _ = False"
  by pat_completeness auto

termination
  by (relation "measure (\<lambda>(a, b). size_list (size_prod (\<lambda>_. 0) size) a)")
     (auto simp: size_pop_item)

text \<open>No dictionary inside the value has the key \<open>_delete_\<close> (lists are not looked into,
  as the merge never descends into one).\<close>

fun no_delete :: "val \<Rightarrow> bool" where
  "no_delete (VDict d) = (\<not> has_key d ''_delete_'' \<and> (\<forall>v \<in> set (map snd d). no_delete v))"
| "no_delete _ = True"

section \<open>Properties of the deep merge\<close>

subsection \<open>Dictionary operations\<close>

lemma has_key_map_of: "has_key d k \<longleftrightarrow> map_of d k \<noteq> None"
  by (simp add: has_key_def map_of_eq_None_iff)

lemma getitem_Some [simp]: "map_of d k = Some v \<Longrightarrow> getitem d k = Inr v"
  by (simp add: getitem_def)

lemma map_of_setitem: "map_of (setitem d k v) k' = (if k' = k then Some v else map_of d k')"
  by (simp add: setitem_def update_conv')



lemma merge_items_keys:
  "merge_items a b = Inr (a', r) \<Longrightarrow> map fst a' = map fst a"
proof (induction a arbitrary: b a' r)
  case Nil
  then show ?case by simp
next
  case (Cons kv rest)
  obtain k v where kv: "kv = (k, v)" by (cases kv)
  from Cons.prems show ?case
    unfolding kv
    by (auto simp: Let_def split: if_splits sum.splits prod.splits dest: Cons.IH)
qed

lemma merge_items_other:
  "merge_items a b = Inr (a', r) \<Longrightarrow> k \<notin> set (map fst a) \<Longrightarrow> map_of r k = map_of b k"
proof (induction a arbitrary: b a' r)
  case Nil
  then show ?case by simp
next
  case (Cons kv rest)
  obtain k0 v where kv: "kv = (k0, v)" by (cases kv)
  from Cons.prems show ?case
    unfolding kv
    by (auto simp: Let_def map_of_setitem split: if_splits sum.splits prod.splits dest!: Cons.IH)
qed


subsection \<open>Induction along the merge\<close>

lemma merge_induct [case_names Dict Other Nil Cons]:
  assumes dict: "\<And>a b. Q a b \<Longrightarrow> P a (VDict b)"
    and other: "\<And>a b. \<not> is_dict b \<Longrightarrow> P a b"
    and nil: "\<And>b. Q [] b"
    and cons: "\<And>k v rest b.
        (\<And>bk. is_dict v \<Longrightarrow> map_of b k = Some bk \<Longrightarrow> P (pop_key ''_delete_'' (dict_items v)) bk) \<Longrightarrow>
        (\<And>bk v2 r. is_dict v \<Longrightarrow> map_of b k = Some bk \<Longrightarrow>
            merge_a_into_b (pop_key ''_delete_'' (dict_items v)) bk = Inr (v2, r) \<Longrightarrow>
            Q rest (setitem b k r)) \<Longrightarrow>
        (\<not> (is_dict v \<and> has_key b k) \<Longrightarrow> Q rest (setitem b k v)) \<Longrightarrow>
        Q ((k, v) # rest) b"
  shows "P a0 b0" and "Q a1 b1"
proof (induction a0 b0 and a1 b1 rule: merge_a_into_b_merge_items.induct)
  case (5 k v rest b)
  show ?case
  proof (rule cons)
    fix bk assume "is_dict v" "map_of b k = Some bk"
    then show "P (pop_key ''_delete_'' (dict_items v)) bk"
      using 5(1)[of "pop_key ''_delete_'' (dict_items v)" bk]
      by (simp add: has_key_map_of)
  next
    fix bk v2 r
    assume "is_dict v" "map_of b k = Some bk"
      "merge_a_into_b (pop_key ''_delete_'' (dict_items v)) bk = Inr (v2, r)"
    then show "Q rest (setitem b k r)"
      using 5(2)[of "pop_key ''_delete_'' (dict_items v)" bk "(v2, r)" v2 r]
      by (simp add: has_key_map_of)
  next
    assume "\<not> (is_dict v \<and> has_key b k)"
    then show "Q rest (setitem b k v)" by (rule 5(3))
  qed
qed (auto intro: dict other nil)

lemma merge_items_Cons_merge:
  "is_dict v \<Longrightarrow> map_of b k = Some bk \<Longrightarrow>
   merge_items ((k, v) # rest) b =
     (case merge_a_into_b (pop_key ''_delete_'' (dict_items v)) bk of
        Inl e \<Rightarrow> Inl e
      | Inr (v2, r) \<Rightarrow>
         (case merge_items rest (setitem b k r) of
            Inl e \<Rightarrow> Inl e
          | Inr (rest', b') \<Rightarrow> Inr ((k, VDict v2) # rest', b')))"
  by (simp add: has_key_map_of)

lemma merge_items_Cons_set:
  "\<not> (is_dict v \<and> has_key b k) \<Longrightarrow>
   merge_items ((k, v) # rest) b =
     (case merge_items rest (setitem b k v) of
        Inl e \<Rightarrow> Inl e
      | Inr (rest', b') \<Rightarrow> Inr ((k, v) # rest', b'))"
  by auto

lemma merge_not_dict:
  "\<not> is_dict b \<Longrightarrow> merge_a_into_b a b = Inr (a', r) \<Longrightarrow> a = [] \<and> a' = [] \<and> r = b"
  by (cases b) (auto split: if_splits)

subsection \<open>The overlay after the merge\<close>

lemma wf_pop_key:
  assumes "wf_val (VDict d)"
  shows "wf_val (VDict (pop_key k d))"
proof -
  have "distinct (map fst (AList.delete k d))"
    using assms by (simp add: distinct_delete)
  moreover have "set (AList.delete k d) \<subseteq> set d"
    by (auto simp: AList.delete_eq)
  ultimately show ?thesis using assms by (auto simp: pop_key_def)
qed

lemma wf_item: "wf_val (VDict d) \<Longrightarrow> (k, v) \<in> set d \<Longrightarrow> wf_val v"
  by force

lemma wf_dict_items: "wf_val v \<Longrightarrow> wf_val (VDict (dict_items v))"
  by (cases v) simp_all

lemma merge_overlay_after_both:
  "wf_val (VDict a0) \<Longrightarrow> merge_a_into_b a0 b0 = Inr (a0', r0) \<Longrightarrow> a0' = overlay_after a0 b0"
  "wf_val (VDict a1) \<Longrightarrow> merge_items a1 b1 = Inr (a1', r1) \<Longrightarrow> a1' = overlay_after a1 (VDict b1)"
proof (induction a0 b0 and a1 b1 arbitrary: a0' r0 and a1' r1 rule: merge_induct)
  case (Dict a b)
  then show ?case by (auto split: sum.splits)
next
  case (Other a b)
  then show ?case by (cases b) (auto split: if_splits)
next
  case (Nil b)
  then show ?case by simp
next
  case (Cons k v rest b)
  have wf_rest: "wf_val (VDict rest)" and k_notin: "k \<notin> set (map fst rest)" and wf_v: "wf_val v"
    using Cons.prems(1) by auto
  have same: "overlay_after rest (VDict (setitem b k x)) = overlay_after rest (VDict b)" for x
    using k_notin by (auto simp: map_of_setitem intro!: map_cong)
  show ?case
  proof (cases "is_dict v \<and> has_key b k")
    case True
    then obtain bk where bk: "map_of b k = Some bk" by (auto simp: has_key_map_of)
    from True bk Cons.prems(2) obtain v2 r rest' where
      m: "merge_a_into_b (pop_key ''_delete_'' (dict_items v)) bk = Inr (v2, r)" and
      l: "merge_items rest (setitem b k r) = Inr (rest', r1)" and
      a1': "a1' = (k, VDict v2) # rest'"
      by (auto simp: merge_items_Cons_merge split: sum.splits)
    have "wf_val (VDict (pop_key ''_delete_'' (dict_items v)))"
      using wf_v by (intro wf_pop_key wf_dict_items)
    with Cons.IH(1) True bk m have "v2 = overlay_after (pop_key ''_delete_'' (dict_items v)) bk"
      by blast
    moreover from Cons.IH(2) True bk m wf_rest l
    have "rest' = overlay_after rest (VDict (setitem b k r))" by blast
    ultimately show ?thesis using a1' True bk same by simp
  next
    case False
    with Cons.prems(2) obtain rest' where
      l: "merge_items rest (setitem b k v) = Inr (rest', r1)" and a1': "a1' = (k, v) # rest'"
      by (auto simp: merge_items_Cons_set simp del: merge_items.simps split: sum.splits)
    from Cons.IH(3) False wf_rest l have "rest' = overlay_after rest (VDict (setitem b k v))"
      by blast
    then show ?thesis using a1' False same by (auto simp: has_key_map_of split: option.splits)
  qed
qed

lemma overlay_after_no_delete:
  "\<forall>v \<in> set (map snd a). no_delete v \<Longrightarrow> overlay_after a b = a"
proof (induction a b rule: overlay_after.induct)
  case (1 a b)
  have "(case map_of b (fst kv) of
           None \<Rightarrow> kv
         | Some bk \<Rightarrow>
             if is_dict (snd kv)
             then (fst kv, VDict (overlay_after (pop_key ''_delete_'' (dict_items (snd kv))) bk))
             else kv) = kv" if kv: "kv \<in> set a" for kv
  proof (cases "map_of b (fst kv)")
    case None
    then show ?thesis by simp
  next
    case (Some bk)
    show ?thesis
    proof (cases "snd kv")
      case (VDict d)
      have nd: "no_delete (snd kv)" using "1.prems" kv by simp
      then have p: "pop_key ''_delete_'' d = d"
        by (simp add: VDict pop_key_def has_key_def)
      have "\<forall>v \<in> set (map snd d). no_delete v" using nd VDict by simp
      with "1.IH"[OF kv Some] VDict p have "overlay_after d bk = d" by simp
      then show ?thesis using Some VDict p by (cases kv) simp
    qed (simp_all add: Some)
  qed
  then show ?case by (simp add: map_idI)
qed simp_all

subsection \<open>When the merge returns\<close>

lemma mergeable_setitem_rest:
  assumes "k \<notin> set (map fst rest)"
  shows "mergeable rest (VDict (setitem b k x)) = mergeable rest (VDict b)"
proof -
  have "map_of (setitem b k x) (fst kv) = map_of b (fst kv)" if "kv \<in> set rest" for kv
    using that assms by (auto simp: map_of_setitem)
  then show ?thesis by simp
qed

lemma merge_succeeds_iff_both:
  "wf_val (VDict a0) \<Longrightarrow> (\<exists>x. merge_a_into_b a0 b0 = Inr x) \<longleftrightarrow> mergeable a0 b0"
  "wf_val (VDict a1) \<Longrightarrow> (\<exists>x. merge_items a1 b1 = Inr x) \<longleftrightarrow> mergeable a1 (VDict b1)"
proof (induction a0 b0 and a1 b1 rule: merge_induct)
  case (Dict a b)
  then show ?case by (auto split: sum.splits)
next
  case (Other a b)
  then show ?case by (cases b) auto
next
  case (Nil b)
  then show ?case by simp
next
  case (Cons k v rest b)
  have wf_rest: "wf_val (VDict rest)" and k_notin: "k \<notin> set (map fst rest)" and wf_v: "wf_val v"
    using Cons.prems(1) by auto
  note same = mergeable_setitem_rest[OF k_notin]
  show ?case
  proof (cases "is_dict v \<and> has_key b k")
    case True
    then obtain bk where bk: "map_of b k = Some bk" by (auto simp: has_key_map_of)
    have wf_p: "wf_val (VDict (pop_key ''_delete_'' (dict_items v)))"
      using wf_v by (intro wf_pop_key wf_dict_items)
    have head: "(\<exists>x. merge_a_into_b (pop_key ''_delete_'' (dict_items v)) bk = Inr x)
                  \<longleftrightarrow> mergeable (pop_key ''_delete_'' (dict_items v)) bk"
      using Cons.IH(1) True bk wf_p by blast
    have tail: "(\<exists>x. merge_items rest (setitem b k r) = Inr x) \<longleftrightarrow> mergeable rest (VDict b)"
      if "merge_a_into_b (pop_key ''_delete_'' (dict_items v)) bk = Inr (v2, r)" for v2 r
      using Cons.IH(2)[OF _ bk that wf_rest] True same by simp
    have "(\<exists>x. merge_items ((k, v) # rest) b = Inr x)
            \<longleftrightarrow> mergeable (pop_key ''_delete_'' (dict_items v)) bk \<and> mergeable rest (VDict b)"
    proof
      assume "\<exists>x. merge_items ((k, v) # rest) b = Inr x"
      then obtain v2 r x where
        m: "merge_a_into_b (pop_key ''_delete_'' (dict_items v)) bk = Inr (v2, r)" and
        l: "merge_items rest (setitem b k r) = Inr x"
        using True bk by (auto simp: merge_items_Cons_merge split: sum.splits)
      from m head have "mergeable (pop_key ''_delete_'' (dict_items v)) bk" by blast
      moreover from tail[OF m] l have "mergeable rest (VDict b)" by blast
      ultimately show "mergeable (pop_key ''_delete_'' (dict_items v)) bk \<and> mergeable rest (VDict b)" ..
    next
      assume h: "mergeable (pop_key ''_delete_'' (dict_items v)) bk \<and> mergeable rest (VDict b)"
      with head obtain v2 r where
        m: "merge_a_into_b (pop_key ''_delete_'' (dict_items v)) bk = Inr (v2, r)" by fastforce
      with tail h obtain x where "merge_items rest (setitem b k r) = Inr x" by blast
      with m True bk show "\<exists>x. merge_items ((k, v) # rest) b = Inr x"
        by (cases x) (simp add: merge_items_Cons_merge)
    qed
    then show ?thesis using True bk by simp
  next
    case False
    have "(\<exists>x. merge_items rest (setitem b k v) = Inr x) \<longleftrightarrow> mergeable rest (VDict b)"
      using Cons.IH(3)[OF False wf_rest] same by simp
    moreover have "(\<exists>x. merge_items ((k, v) # rest) b = Inr x)
        \<longleftrightarrow> (\<exists>x. merge_items rest (setitem b k v) = Inr x)"
      using False by (auto simp: merge_items_Cons_set simp del: merge_items.simps split: sum.splits)
    ultimately show ?thesis using False by (auto simp: has_key_map_of split: option.splits)
  qed
qed

subsection \<open>Merging a second time\<close>

lemma pop_key_absent: "k \<notin> fst ` set d \<Longrightarrow> pop_key k d = d"
  by (simp add: pop_key_def)

lemma pop_key_notin: "k \<notin> fst ` set (pop_key k d)"
  using delete_notin_dom[of k d] by (simp add: pop_key_def)

lemma merge_keys_a:
  "merge_a_into_b a b = Inr (a', r) \<Longrightarrow> map fst a' = map fst a"
  by (cases b) (auto split: sum.splits if_splits dest: merge_items_keys)

lemma merge_again_both:
  "merge_a_into_b a0 b0 = Inr (a0', r0) \<Longrightarrow> merge_a_into_b a0' b0 = Inr (a0', r0)"
  "merge_items a1 b1 = Inr (a1', r1) \<Longrightarrow> merge_items a1' b1 = Inr (a1', r1)"
proof (induction a0 b0 and a1 b1 arbitrary: a0' r0 and a1' r1 rule: merge_induct)
  case (Dict a b)
  from Dict.prems obtain r where l: "merge_items a b = Inr (a0', r)" and r0: "r0 = VDict r"
    by (auto split: sum.splits)
  from Dict.IH[OF l] show ?case by (simp add: r0)
next
  case (Other a b)
  then show ?case by (cases b) (auto split: if_splits)
next
  case (Nil b)
  then show ?case by simp
next
  case (Cons k v rest b)
  show ?case
  proof (cases "is_dict v \<and> has_key b k")
    case True
    then obtain bk where bk: "map_of b k = Some bk" by (auto simp: has_key_map_of)
    from True bk Cons.prems obtain v2 r rest' where
      m: "merge_a_into_b (pop_key ''_delete_'' (dict_items v)) bk = Inr (v2, r)" and
      l: "merge_items rest (setitem b k r) = Inr (rest', r1)" and
      a1': "a1' = (k, VDict v2) # rest'"
      by (auto simp: merge_items_Cons_merge split: sum.splits)
    have "map fst v2 = map fst (pop_key ''_delete_'' (dict_items v))"
      using m by (rule merge_keys_a)
    then have "fst ` set v2 = fst ` set (pop_key ''_delete_'' (dict_items v))"
      by (metis set_map)
    then have "''_delete_'' \<notin> fst ` set v2" by (simp add: pop_key_notin)
    then have p: "pop_key ''_delete_'' v2 = v2" by (rule pop_key_absent)
    have m': "merge_a_into_b v2 bk = Inr (v2, r)" using Cons.IH(1) True bk m by blast
    have l': "merge_items rest' (setitem b k r) = Inr (rest', r1)"
      using Cons.IH(2) True bk m l by blast
    have "merge_items ((k, VDict v2) # rest') b =
        (case merge_a_into_b (pop_key ''_delete_'' (dict_items (VDict v2))) bk of
           Inl e \<Rightarrow> Inl e
         | Inr (v3, r) \<Rightarrow>
            (case merge_items rest' (setitem b k r) of
               Inl e \<Rightarrow> Inl e
             | Inr (rest', b') \<Rightarrow> Inr ((k, VDict v3) # rest', b')))"
      using bk by (intro merge_items_Cons_merge) simp_all
    then show ?thesis unfolding a1' by (simp add: p m' l' del: merge_items.simps)
  next
    case False
    with Cons.prems obtain rest' where
      l: "merge_items rest (setitem b k v) = Inr (rest', r1)" and a1': "a1' = (k, v) # rest'"
      by (auto simp: merge_items_Cons_set simp del: merge_items.simps split: sum.splits)
    have "merge_items rest' (setitem b k v) = Inr (rest', r1)" using Cons.IH(3) False l by blast
    then show ?thesis unfolding a1' using False
      by (simp add: merge_items_Cons_set del: merge_items.simps)
  qed
qed

subsection \<open>The merged value at each key\<close>

lemma merge_items_absent:
  "merge_items a b = Inr (a', r) \<Longrightarrow> map_of a k = None \<Longrightarrow> map_of r k = map_of b k"
  by (rule merge_items_other) (simp_all add: map_of_eq_None_iff)


lemma merge_items_merged:
  "merge_items a b = Inr (a', r) \<Longrightarrow> distinct (map fst a) \<Longrightarrow> map_of a k = Some v \<Longrightarrow>
   is_dict v \<Longrightarrow> map_of b k = Some bk \<Longrightarrow>
   \<exists>v2 m. merge_a_into_b (pop_key ''_delete_'' (dict_items v)) bk = Inr (v2, m) \<and>
          map_of r k = Some m \<and> map_of a' k = Some (VDict v2)"
proof (induction a arbitrary: b a' r)
  case Nil
  then show ?case by simp
next
  case (Cons kv rest)
  obtain k0 v0 where kv: "kv = (k0, v0)" by (cases kv)
  have k0: "k0 \<notin> set (map fst rest)" and d: "distinct (map fst rest)"
    using Cons.prems(2) by (simp_all add: kv)
  show ?case
  proof (cases "k = k0")
    case True
    then have v0: "v0 = v" using Cons.prems(3) by (simp add: kv)
    from Cons.prems(1,4,5) obtain v2 m rest' where
      m: "merge_a_into_b (pop_key ''_delete_'' (dict_items v)) bk = Inr (v2, m)" and
      l: "merge_items rest (setitem b k m) = Inr (rest', r)" and
      a': "a' = (k, VDict v2) # rest'"
      unfolding kv v0 True[symmetric]
      by (auto simp: merge_items_Cons_merge simp del: merge_items.simps split: sum.splits)
    from merge_items_other[OF l] k0 True have "map_of r k = Some m"
      by (simp add: map_of_setitem)
    with m a' show ?thesis by simp
  next
    case False
    then have lk: "map_of rest k = Some v" using Cons.prems(3) by (simp add: kv)
    from Cons.prems(1) obtain x y rest' where
      l: "merge_items rest (setitem b k0 x) = Inr (rest', r)" and a': "a' = (k0, y) # rest'"
      unfolding kv by (auto simp: Let_def split: if_splits sum.splits)
    have "map_of (setitem b k0 x) k = Some bk"
      using Cons.prems(5) False by (simp add: map_of_setitem)
    from Cons.IH[OF l d lk Cons.prems(4) this] a' False show ?thesis by simp
  qed
qed

lemma merge_items_result_keys:
  "merge_items a b = Inr (a', r) \<Longrightarrow> fst ` set r = fst ` set b \<union> fst ` set a"
proof (induction a arbitrary: b a' r)
  case Nil
  then show ?case by simp
next
  case (Cons kv rest)
  obtain k0 v0 where kv: "kv = (k0, v0)" by (cases kv)
  from Cons.prems obtain x rest' where
    l: "merge_items rest (setitem b k0 x) = Inr (rest', r)"
    unfolding kv by (auto simp: Let_def split: if_splits sum.splits)
  from Cons.IH[OF l] show ?case by (auto simp: kv setitem_def dom_update)
qed

subsection \<open>The overlay a call leaves\<close>

text \<open>
  After a call that returns, the overlay is \<open>overlay_after a b\<close>: it has the same keys in
  the same order, and it is equal to its value before the call when no nested mapping of
  it holds the key \<open>_delete_\<close>.
\<close>

lemma merge_overlay_state:
  assumes "wf_val (VDict a)" and "merge_a_into_b a b = Inr (a', r)"
  shows "a' = overlay_after a b \<and> map fst a' = map fst a \<and>
         ((\<forall>v \<in> set (map snd a). no_delete v) \<longrightarrow> a' = a)"
proof -
  have "a' = overlay_after a b"
    using assms by (rule merge_overlay_after_both(1))
  moreover have "map fst a' = map fst a"
    using assms(2) by (rule merge_keys_a)
  moreover have "overlay_after a b = a" if "\<forall>v \<in> set (map snd a). no_delete v"
    using that by (rule overlay_after_no_delete)
  ultimately show ?thesis by simp
qed

section \<open>Claims about the deep merge\<close>

lemmas dict_ops = has_key_def getitem_def setitem_def pop_key_def

text \<open>
  Claim C6 says that the merge has no error conditions, also when a nested mapping of the
  overlay meets a scalar of the base at the same key. There \<open>b[k].copy()\<close> is called on
  the scalar and raises: for the overlay \<open>{k: {x: 1}}\<close> and the base \<open>{k: 5}\<close> the merge
  ends in \<open>AttributeError\<close>.
\<close>

theorem merge_scalar_base_raises:
  "merge_a_into_b [(''k'', VDict [(''x'', VInt 1)])] (VDict [(''k'', VInt 5)]) = Inl AttributeError"
  by (simp add: dict_ops)

text \<open>
  Claim C6, amended: for an overlay with distinct keys throughout, the merge into a base
  mapping returns a mapping exactly when the pair is \<open>mergeable\<close>: wherever the overlay's
  value at a key is a mapping and the base has that key, at every depth, the base's value
  is a mapping too, or it is a list and the overlay's mapping is empty once \<open>_delete_\<close> is
  popped. In every other case the merge raises.
\<close>

theorem merge_returns_iff_mergeable:
  assumes "wf_val (VDict a)"
  shows "(\<exists>a' r. merge_a_into_b a (VDict b) = Inr (a', VDict r)) \<longleftrightarrow> mergeable a (VDict b)"
proof -
  have "(\<exists>a' r. merge_a_into_b a (VDict b) = Inr (a', VDict r))
          \<longleftrightarrow> (\<exists>x. merge_a_into_b a (VDict b) = Inr x)"
    by (auto split: sum.splits)
  with merge_succeeds_iff_both(1)[OF assms, of "VDict b"] show ?thesis by simp
qed

theorem merge_returns_iff_mergeable_witness:
  "wf_val (VDict [(''y'', VDict [(''q'', VInt 2)]), (''z'', VInt 3)]) \<and>
   mergeable [(''y'', VDict [(''q'', VInt 2)]), (''z'', VInt 3)]
     (VDict [(''x'', VInt 1), (''y'', VDict [(''p'', VInt 1)])]) \<and>
   (\<exists>a' r. merge_a_into_b [(''y'', VDict [(''q'', VInt 2)]), (''z'', VInt 3)]
     (VDict [(''x'', VInt 1), (''y'', VDict [(''p'', VInt 1)])]) = Inr (a', VDict r))"
proof -
  have w: "wf_val (VDict [(''y'', VDict [(''q'', VInt 2)]), (''z'', VInt 3)])"
    by simp
  have m: "mergeable [(''y'', VDict [(''q'', VInt 2)]), (''z'', VInt 3)]
     (VDict [(''x'', VInt 1), (''y'', VDict [(''p'', VInt 1)])])"
    by (simp add: dict_ops)
  from merge_returns_iff_mergeable[OF w] m w show ?thesis by blast
qed



text \<open>
  A value of type \<open>val\<close> is a tree: it cannot say that two keys hold the same dictionary
  object. What the merge returns key by key, and where it removes \<open>_delete_\<close>, is therefore
  stated on the store of objects of the next section (claims C1 and C7, amended), where
  the overlay and the base may share objects.
\<close>

section \<open>The deep merge on a store of objects\<close>

text \<open>
  Dictionaries and lists are objects: a variable or an item holds a reference, and a
  write through one reference is seen through every other. To say which objects a call
  of \<open>merge_a_into_b\<close> writes to, this section runs the same function on a store. An
  address is an index into the list of objects, a new object goes to the end of the
  list, and no object is ever removed. Values that cannot be written to (\<open>None\<close>,
  numbers, strings, tuples) are held in place; a tuple can still hold references.
\<close>

datatype sval =
    SNone
  | SBool bool
  | SInt int
  | SFloat real
  | SStr string
  | STuple "sval list"
  | SRef nat

datatype obj = Dict "(string \<times> sval) list" | List "sval list"

type_synonym store = "obj list"

text \<open>The address of the dictionary a value refers to: \<open>isinstance(v, dict)\<close>.\<close>

fun dict_addr :: "store \<Rightarrow> sval \<Rightarrow> nat option" where
  "dict_addr h (SRef p) =
     (if p < length h then (case h ! p of Dict _ \<Rightarrow> Some p | List _ \<Rightarrow> None) else None)"
| "dict_addr h _ = None"

text \<open>\<open>k in b\<close>, \<open>b[k]\<close>, \<open>b[k] = v\<close> and \<open>v.pop(k, default)\<close> for the object at an address.
  Indexing a list with a string raises \<open>TypeError\<close>.\<close>

definition store_contains :: "store \<Rightarrow> nat \<Rightarrow> string \<Rightarrow> bool" where
  "store_contains h p k =
     (case h ! p of Dict items \<Rightarrow> k \<in> set (map fst items) | List xs \<Rightarrow> SStr k \<in> set xs)"

definition store_getitem :: "store \<Rightarrow> nat \<Rightarrow> string \<Rightarrow> error + sval" where
  "store_getitem h p k =
     (case h ! p of
        Dict items \<Rightarrow> (case map_of items k of None \<Rightarrow> Inl (KeyError k) | Some v \<Rightarrow> Inr v)
      | List xs \<Rightarrow> Inl TypeError)"

definition store_setitem :: "store \<Rightarrow> nat \<Rightarrow> string \<Rightarrow> sval \<Rightarrow> error + store" where
  "store_setitem h p k v =
     (case h ! p of
        Dict items \<Rightarrow> Inr (h[p := Dict (AList.update k v items)])
      | List xs \<Rightarrow> Inl TypeError)"

definition store_pop :: "store \<Rightarrow> nat \<Rightarrow> string \<Rightarrow> store" where
  "store_pop h p k =
     (case h ! p of
        Dict items \<Rightarrow> h[p := Dict (AList.delete k items)]
      | List xs \<Rightarrow> h)"

text \<open>
  \<open>store_merge_a_into_b n h a b\<close> is the call \<open>merge_a_into_b(a, b)\<close> in the store \<open>h\<close>,
  where \<open>a\<close> is the address of the overlay and \<open>b\<close> the value passed as base; \<open>n\<close> bounds
  the depth of the recursion, which need not end on a store with cycles. The result is
  the returned reference and the store after the call. \<open>b.copy()\<close> puts a new object
  with the items of \<open>b\<close> at the end of the store. The loop runs over the items the
  overlay has when the loop starts. A reference to an address outside the store is not
  a Python state, and the call has no result there.
\<close>

fun store_merge_a_into_b :: "nat \<Rightarrow> store \<Rightarrow> nat \<Rightarrow> sval \<Rightarrow> (error + sval \<times> store) option"
  and store_merge_items :: "nat \<Rightarrow> store \<Rightarrow> (string \<times> sval) list \<Rightarrow> nat \<Rightarrow> (error + store) option"
where
  "store_merge_a_into_b 0 h a b = None"
| "store_merge_a_into_b (Suc n) h a (SRef pb) =
     (if pb < length h \<and> a < length h then
        (let nb = length h; h1 = h @ [h ! pb] in
         case h1 ! a of
           List xs \<Rightarrow> Some (Inl AttributeError)
         | Dict items \<Rightarrow>
            (case store_merge_items n h1 items nb of
               None \<Rightarrow> None
             | Some (Inl e) \<Rightarrow> Some (Inl e)
             | Some (Inr h2) \<Rightarrow> Some (Inr (SRef nb, h2))))
      else None)"
| "store_merge_a_into_b (Suc n) h a _ = Some (Inl AttributeError)"
| "store_merge_items n h [] nb = Some (Inr h)"
| "store_merge_items n h ((k, v) # rest) nb =
     (case (if store_contains h nb k then dict_addr h v else None) of
        Some p \<Rightarrow>
          (let h1 = store_pop h p ''_delete_'' in
           case store_getitem h1 nb k of
             Inl e \<Rightarrow> Some (Inl e)
           | Inr bk \<Rightarrow>
              (case store_merge_a_into_b n h1 p bk of
                 None \<Rightarrow> None
               | Some (Inl e) \<Rightarrow> Some (Inl e)
               | Some (Inr (r, h2)) \<Rightarrow>
                  (case store_setitem h2 nb k r of
                     Inl e \<Rightarrow> Some (Inl e)
                   | Inr h3 \<Rightarrow> store_merge_items n h3 rest nb)))
      | None \<Rightarrow>
          (case store_setitem h nb k v of
             Inl e \<Rightarrow> Some (Inl e)
           | Inr h1 \<Rightarrow> store_merge_items n h1 rest nb))"

subsection \<open>The vocabulary of the frame property\<close>

text \<open>
  An object after a call is as it was, or it is the same dictionary without the key
  \<open>_delete_\<close>.
\<close>

fun same_or_popped :: "obj \<Rightarrow> obj \<Rightarrow> bool" where
  "same_or_popped (Dict d) x = (x = Dict d \<or> x = Dict (AList.delete ''_delete_'' d))"
| "same_or_popped (List xs) x = (x = List xs)"

text \<open>The addresses a value and an object hold.\<close>

fun refs_val :: "sval \<Rightarrow> nat set" where
  "refs_val (SRef p) = {p}"
| "refs_val (STuple xs) = (\<Union>x \<in> set xs. refs_val x)"
| "refs_val _ = {}"

fun refs_obj :: "obj \<Rightarrow> nat set" where
  "refs_obj (Dict d) = (\<Union>kv \<in> set d. refs_val (snd kv))"
| "refs_obj (List xs) = (\<Union>x \<in> set xs. refs_val x)"

text \<open>Every reference held by an object of the store is an address of the store.\<close>

definition closed :: "store \<Rightarrow> bool" where
  "closed h = list_all (\<lambda>x. \<forall>q \<in> refs_obj x. q < length h) h"

text \<open>
  The dictionary at \<open>a\<close> has the reference \<open>p\<close> as the value of one of its keys; the nested
  objects of \<open>a\<close> are those reached from it through one or more such steps.
\<close>

fun child_refs :: "obj \<Rightarrow> nat list" where
  "child_refs (Dict d) = concat (map (\<lambda>kv. case snd kv of SRef p \<Rightarrow> [p] | _ \<Rightarrow> []) d)"
| "child_refs (List xs) = []"

definition child :: "store \<Rightarrow> (nat \<times> nat) set" where
  "child h = {(a, p). a < length h \<and> p \<in> set (child_refs (h ! a))}"

definition nested :: "store \<Rightarrow> nat \<Rightarrow> nat set" where
  "nested h a = {p. (a, p) \<in> (child h)\<^sup>+}"

subsection \<open>Properties of the store operations\<close>

lemma closed_iff:
  "closed h \<longleftrightarrow> (\<forall>p < length h. \<forall>q \<in> refs_obj (h ! p). q < length h)"
  by (simp add: closed_def list_all_length)

lemma same_or_popped_refl [simp]: "same_or_popped x x"
  by (cases x) simp_all

lemma same_or_popped_trans:
  "same_or_popped x y \<Longrightarrow> same_or_popped y z \<Longrightarrow> same_or_popped x z"
  by (cases x) (auto simp: delete_idem)

lemma child_refs_iff:
  "p \<in> set (child_refs (Dict d)) \<longleftrightarrow> (\<exists>k. (k, SRef p) \<in> set d)"
proof (induction d)
  case Nil
  show ?case by simp
next
  case (Cons kv d)
  obtain k v where kv: "kv = (k, v)" by (cases kv)
  show ?case using Cons.IH by (cases v) (auto simp: kv)
qed

lemma child_refs_subset_refs: "set (child_refs x) \<subseteq> refs_obj x"
proof (cases x)
  case (Dict d)
  show ?thesis
  proof
    fix p assume "p \<in> set (child_refs x)"
    then obtain k where "(k, SRef p) \<in> set d" using Dict by (auto simp: child_refs_iff)
    then show "p \<in> refs_obj x" using Dict by force
  qed
qed simp

lemma same_or_popped_child_refs:
  "same_or_popped x y \<Longrightarrow> set (child_refs y) \<subseteq> set (child_refs x)"
proof (cases x)
  case (Dict d)
  assume "same_or_popped x y"
  then consider "y = Dict d" | "y = Dict (AList.delete ''_delete_'' d)"
    using Dict by auto
  then show ?thesis
  proof cases
    case 1
    then show ?thesis using Dict by simp
  next
    case 2
    have "set (AList.delete ''_delete_'' d) \<subseteq> set d" by (auto simp: AList.delete_eq)
    then show ?thesis unfolding 2 Dict by (auto simp: child_refs_iff)
  qed
qed simp

lemma same_or_popped_refs:
  "same_or_popped x y \<Longrightarrow> refs_obj y \<subseteq> refs_obj x"
proof (cases x)
  case (Dict d)
  assume "same_or_popped x y"
  then consider "y = Dict d" | "y = Dict (AList.delete ''_delete_'' d)"
    using Dict by auto
  then show ?thesis
  proof cases
    case 1
    then show ?thesis using Dict by simp
  next
    case 2
    have "set (AList.delete ''_delete_'' d) \<subseteq> set d" by (auto simp: AList.delete_eq)
    then show ?thesis unfolding 2 Dict by auto
  qed
qed simp

lemma refs_obj_update:
  "refs_obj (Dict (AList.update k v d)) \<subseteq> refs_obj (Dict d) \<union> refs_val v"
proof (induction d)
  case Nil
  show ?case by simp
next
  case (Cons kv d)
  then show ?case by (cases kv) auto
qed

lemma refs_obj_lookup:
  "map_of d k = Some v \<Longrightarrow> refs_val v \<subseteq> refs_obj (Dict d)"
  by (force dest: map_of_SomeD)

text \<open>In a part of the store that holds no reference out of itself, the nested objects
  of an address stay in that part.\<close>

lemma nested_stays_below:
  assumes cl: "\<forall>q < m. \<forall>x \<in> refs_obj (h ! q). x < m"
    and a: "a < m" and p: "p \<in> nested h a"
  shows "p < m"
proof -
  from p have "(a, p) \<in> (child h)\<^sup>+" by (simp add: nested_def)
  then show ?thesis using a
  proof (induction rule: trancl_induct)
    case (base y)
    then have "y \<in> refs_obj (h ! a)"
      using child_refs_subset_refs by (auto simp: child_def)
    with cl base.prems show ?case by blast
  next
    case (step y z)
    then have "y < m" by simp
    moreover from step.hyps(2) have "z \<in> refs_obj (h ! y)"
      using child_refs_subset_refs by (auto simp: child_def)
    ultimately show ?case using cl by blast
  qed
qed

text \<open>When the objects of such a part have only lost items, nothing new is nested.\<close>

lemma nested_shrinks:
  assumes cl: "\<forall>q < m. \<forall>x \<in> refs_obj (h ! q). x < m"
    and le: "m \<le> length h"
    and sp: "\<forall>q < m. same_or_popped (h ! q) (h' ! q)"
    and a: "a < m" and p: "p \<in> nested h' a"
  shows "p \<in> nested h a"
proof -
  have edge: "(x, y) \<in> child h" if "x < m" "(x, y) \<in> child h'" for x y
  proof -
    from that(2) have "y \<in> set (child_refs (h' ! x))" by (simp add: child_def)
    moreover have "same_or_popped (h ! x) (h' ! x)" using sp that(1) by simp
    ultimately have "y \<in> set (child_refs (h ! x))"
      using same_or_popped_child_refs by blast
    then show ?thesis using that(1) le by (simp add: child_def)
  qed
  from p have "(a, p) \<in> (child h')\<^sup>+" by (simp add: nested_def)
  then have "(a, p) \<in> (child h)\<^sup>+ \<and> p < m" using a
  proof (induction rule: trancl_induct)
    case (base y)
    then have e: "(a, y) \<in> child h" by (simp add: edge)
    then have "y \<in> nested h a" by (simp add: nested_def)
    with cl base.prems have "y < m" by (rule nested_stays_below)
    with e show ?case by blast
  next
    case (step y z)
    then have y: "(a, y) \<in> (child h)\<^sup>+" "y < m" by simp_all
    with step.hyps(2) have e: "(y, z) \<in> child h" by (simp add: edge)
    with y(1) have t: "(a, z) \<in> (child h)\<^sup>+" by (rule trancl_into_trancl)
    then have "z \<in> nested h a" by (simp add: nested_def)
    with cl step.prems have "z < m" by (rule nested_stays_below)
    with t show ?case by blast
  qed
  then show ?thesis by (simp add: nested_def)
qed

lemma nested_trans:
  "q \<in> nested h a \<Longrightarrow> p \<in> nested h q \<Longrightarrow> p \<in> nested h a"
  by (auto simp: nested_def)

lemma nested_child:
  assumes "a < length h" and "h ! a = Dict d" and "(k, SRef p) \<in> set d"
  shows "p \<in> nested h a"
proof -
  have "p \<in> set (child_refs (h ! a))"
    using assms(2,3) child_refs_iff[of p d] by auto
  then have "(a, p) \<in> child h" using assms(1) by (simp add: child_def)
  then show ?thesis by (simp add: nested_def)
qed

lemma dict_addr_Some:
  assumes "dict_addr h v = Some p"
  shows "v = SRef p" and "p < length h" and "\<exists>d. h ! p = Dict d"
  using assms by (cases v; auto split: if_splits obj.splits)+

lemma length_store_pop [simp]: "length (store_pop h p k) = length h"
  by (simp add: store_pop_def split: obj.splits)

lemma store_pop_other: "q \<noteq> p \<Longrightarrow> store_pop h p k ! q = h ! q"
  by (simp add: store_pop_def split: obj.splits)

lemma store_pop_same_or_popped:
  "q < length h \<Longrightarrow> same_or_popped (h ! q) (store_pop h p ''_delete_'' ! q)"
  by (cases "q = p") (auto simp: store_pop_def split: obj.splits)

lemma store_setitem_Inr:
  assumes "store_setitem h nb k v = Inr h1"
  shows "length h1 = length h" and "\<And>q. q \<noteq> nb \<Longrightarrow> h1 ! q = h ! q"
    and "nb < length h \<Longrightarrow> refs_obj (h1 ! nb) \<subseteq> refs_obj (h ! nb) \<union> refs_val v"
proof -
  from assms obtain d where d: "h ! nb = Dict d" and h1: "h1 = h[nb := Dict (AList.update k v d)]"
    by (auto simp: store_setitem_def split: obj.splits)
  show "length h1 = length h" by (simp add: h1)
  show "\<And>q. q \<noteq> nb \<Longrightarrow> h1 ! q = h ! q" by (simp add: h1)
  show "refs_obj (h1 ! nb) \<subseteq> refs_obj (h ! nb) \<union> refs_val v" if "nb < length h"
    using that refs_obj_update[of k v d] by (simp add: h1 d)
qed

lemma store_getitem_Inr:
  assumes "store_getitem h nb k = Inr bk"
  shows "refs_val bk \<subseteq> refs_obj (h ! nb)"
proof -
  from assms obtain d where "h ! nb = Dict d" and "map_of d k = Some bk"
    by (auto simp: store_getitem_def split: obj.splits option.splits)
  then show ?thesis using refs_obj_lookup[of d k bk] by simp
qed

lemma closed_store_pop:
  assumes "closed h"
  shows "closed (store_pop h p ''_delete_'')"
  unfolding closed_iff
proof (intro allI impI ballI)
  fix q x
  assume q: "q < length (store_pop h p ''_delete_'')"
    and x: "x \<in> refs_obj (store_pop h p ''_delete_'' ! q)"
  from q have q': "q < length h" by simp
  then have "same_or_popped (h ! q) (store_pop h p ''_delete_'' ! q)"
    by (rule store_pop_same_or_popped)
  then have "x \<in> refs_obj (h ! q)" using x same_or_popped_refs by blast
  with assms q' show "x < length (store_pop h p ''_delete_'')" by (simp add: closed_iff)
qed

lemma closed_store_setitem:
  assumes cl: "closed h" and nb: "nb < length h" and v: "\<forall>x \<in> refs_val v. x < length h"
    and s: "store_setitem h nb k v = Inr h1"
  shows "closed h1"
  unfolding closed_iff
proof (intro allI impI ballI)
  fix q x
  assume q: "q < length h1" and x: "x \<in> refs_obj (h1 ! q)"
  note facts = store_setitem_Inr[OF s]
  from q have q': "q < length h" by (simp add: facts(1))
  have "x < length h"
  proof (cases "q = nb")
    case True
    with x facts(3)[OF nb] have "x \<in> refs_obj (h ! nb) \<union> refs_val v" by blast
    with cl nb v show ?thesis by (auto simp: closed_iff)
  next
    case False
    with x facts(2) have "x \<in> refs_obj (h ! q)" by simp
    with cl q' show ?thesis by (auto simp: closed_iff)
  qed
  then show "x < length h1" by (simp add: facts(1))
qed

lemma closed_copy:
  assumes cl: "closed h" and pb: "pb < length h"
  shows "closed (h @ [h ! pb])"
  unfolding closed_iff
proof (intro allI impI ballI)
  fix q x
  assume q: "q < length (h @ [h ! pb])" and x: "x \<in> refs_obj ((h @ [h ! pb]) ! q)"
  have "x < length h"
  proof (cases "q < length h")
    case True
    with x have "x \<in> refs_obj (h ! q)" by (simp add: nth_append)
    with cl True show ?thesis by (auto simp: closed_iff)
  next
    case False
    with q have "q = length h" by simp
    with x have "x \<in> refs_obj (h ! pb)" by simp
    with cl pb show ?thesis by (auto simp: closed_iff)
  qed
  then show "x < length (h @ [h ! pb])" by simp
qed

subsection \<open>What a call leaves of the store\<close>

text \<open>
  After a call that returns: the result is a reference to a new object, the store is
  closed again, an object that was there before is as it was or has lost \<open>_delete_\<close>,
  and it is as it was when it is not nested in the overlay. The loop has the same
  property for the objects other than the copy it builds, which sits at \<open>nb\<close>, above
  the part \<open>m\<close> of the store that existed when the copy was made.
\<close>

definition call_post :: "store \<Rightarrow> nat \<Rightarrow> sval \<Rightarrow> store \<Rightarrow> bool" where
  "call_post h a r h' \<longleftrightarrow>
     r = SRef (length h) \<and> length h < length h' \<and> closed h' \<and>
     (\<forall>q < length h. same_or_popped (h ! q) (h' ! q)) \<and>
     (\<forall>q < length h. q \<notin> nested h a \<longrightarrow> h' ! q = h ! q)"

definition loop_pre :: "nat \<Rightarrow> store \<Rightarrow> (string \<times> sval) list \<Rightarrow> nat \<Rightarrow> bool" where
  "loop_pre m h items nb \<longleftrightarrow>
     closed h \<and> m \<le> nb \<and> nb < length h \<and>
     (\<forall>q < m. \<forall>x \<in> refs_obj (h ! q). x < m) \<and>
     (\<forall>kv \<in> set items. \<forall>x \<in> refs_val (snd kv). x < m)"

definition loop_post :: "nat \<Rightarrow> store \<Rightarrow> (string \<times> sval) list \<Rightarrow> nat \<Rightarrow> store \<Rightarrow> bool" where
  "loop_post m h items nb h' \<longleftrightarrow>
     length h \<le> length h' \<and> closed h' \<and>
     (\<forall>q < length h. q \<noteq> nb \<longrightarrow> same_or_popped (h ! q) (h' ! q)) \<and>
     (\<forall>q < m. (\<forall>kv \<in> set items. \<forall>p. snd kv = SRef p \<longrightarrow> q \<noteq> p \<and> q \<notin> nested h p)
              \<longrightarrow> h' ! q = h ! q)"

lemma store_merge_items_descend:
  assumes "store_contains h nb k" and "dict_addr h v = Some p"
  shows "store_merge_items n h ((k, v) # rest) nb =
     (case store_getitem (store_pop h p ''_delete_'') nb k of
        Inl e \<Rightarrow> Some (Inl e)
      | Inr bk \<Rightarrow>
         (case store_merge_a_into_b n (store_pop h p ''_delete_'') p bk of
            None \<Rightarrow> None
          | Some (Inl e) \<Rightarrow> Some (Inl e)
          | Some (Inr (r, h2)) \<Rightarrow>
             (case store_setitem h2 nb k r of
                Inl e \<Rightarrow> Some (Inl e)
              | Inr h3 \<Rightarrow> store_merge_items n h3 rest nb)))"
  using assms by (simp add: Let_def)

lemma store_merge_items_set:
  assumes "\<not> store_contains h nb k \<or> dict_addr h v = None"
  shows "store_merge_items n h ((k, v) # rest) nb =
     (case store_setitem h nb k v of
        Inl e \<Rightarrow> Some (Inl e)
      | Inr h1 \<Rightarrow> store_merge_items n h1 rest nb)"
  using assms by auto

lemma loop_frame:
  assumes call: "\<And>h a b r h'. closed h \<Longrightarrow>
                   store_merge_a_into_b n h a b = Some (Inr (r, h')) \<Longrightarrow> call_post h a r h'"
  shows "loop_pre m h items nb \<Longrightarrow> store_merge_items n h items nb = Some (Inr h') \<Longrightarrow>
         loop_post m h items nb h'"
proof (induction items arbitrary: h)
  case Nil
  then show ?case by (simp add: loop_pre_def loop_post_def)
next
  case (Cons kv rest)
  obtain k v where kv: "kv = (k, v)" by (cases kv)
  from Cons.prems(1) have cl: "closed h" and m: "m \<le> nb" and nb: "nb < length h"
    and old: "\<forall>q < m. \<forall>x \<in> refs_obj (h ! q). x < m"
    and vrefs: "\<forall>x \<in> refs_val v. x < m"
    and rrefs: "\<forall>kv \<in> set rest. \<forall>x \<in> refs_val (snd kv). x < m"
    by (simp_all add: loop_pre_def kv)
  show ?case
  proof (cases "store_contains h nb k \<and> dict_addr h v \<noteq> None")
    case False
    then have f: "\<not> store_contains h nb k \<or> dict_addr h v = None" by simp
    from Cons.prems(2) obtain h1 where
      s: "store_setitem h nb k v = Inr h1" and
      l: "store_merge_items n h1 rest nb = Some (Inr h')"
      unfolding kv store_merge_items_set[OF f] by (auto split: sum.splits)
    note h1 = store_setitem_Inr[OF s]
    have "\<forall>x \<in> refs_val v. x < length h" using vrefs m nb by auto
    with cl nb have cl1: "closed h1" using s by (rule closed_store_setitem)
    have old1: "\<forall>q < m. \<forall>x \<in> refs_obj (h1 ! q). x < m"
      using old h1(2) m by auto
    have "loop_pre m h1 rest nb"
      using cl1 m nb old1 rrefs by (simp add: loop_pre_def h1(1))
    then have post: "loop_post m h1 rest nb h'" using l by (rule Cons.IH)
    have sp1: "\<forall>q < m. same_or_popped (h ! q) (h1 ! q)" using h1(2) m by auto
    have "h' ! q = h ! q"
      if q: "q < m" and ex: "\<forall>kv \<in> set (kv # rest). \<forall>p. snd kv = SRef p \<longrightarrow> q \<noteq> p \<and> q \<notin> nested h p"
      for q
    proof -
      have "\<forall>kv \<in> set rest. \<forall>p. snd kv = SRef p \<longrightarrow> q \<noteq> p \<and> q \<notin> nested h1 p"
      proof (intro ballI allI impI)
        fix kv' p assume kv': "kv' \<in> set rest" and p: "snd kv' = SRef p"
        then have pm: "p < m" using rrefs by force
        from ex kv' p have "q \<noteq> p" "q \<notin> nested h p" by auto
        moreover have "q \<in> nested h p" if "q \<in> nested h1 p"
          using old _ sp1 pm that by (rule nested_shrinks) (use m nb in simp)
        ultimately show "q \<noteq> p \<and> q \<notin> nested h1 p" by blast
      qed
      with post q have "h' ! q = h1 ! q" by (simp add: loop_post_def)
      with h1(2) q m show ?thesis by simp
    qed
    moreover have "same_or_popped (h ! q) (h' ! q)" if "q < length h" "q \<noteq> nb" for q
      using post that h1 by (simp add: loop_post_def)
    ultimately show ?thesis using post h1(1) by (simp add: loop_post_def)
  next
    case True
    then obtain p where c: "store_contains h nb k" and da: "dict_addr h v = Some p" by auto
    note p = dict_addr_Some[OF da]
    have pm: "p < m" using vrefs p(1) by simp
    then have pnb: "p \<noteq> nb" using m by simp
    let ?h1 = "store_pop h p ''_delete_''"
    from Cons.prems(2) obtain bk r h2 h3 where
      g: "store_getitem ?h1 nb k = Inr bk" and
      c2: "store_merge_a_into_b n ?h1 p bk = Some (Inr (r, h2))" and
      s: "store_setitem h2 nb k r = Inr h3" and
      l: "store_merge_items n h3 rest nb = Some (Inr h')"
      unfolding kv store_merge_items_descend[OF c da]
      by (auto split: sum.splits option.splits prod.splits)
    have cl1: "closed ?h1" using cl by (rule closed_store_pop)
    then have cp: "call_post ?h1 p r h2" using c2 by (rule call)
    then have r: "r = SRef (length h)" and len2: "length h < length h2" and cl2: "closed h2"
      and sp12: "\<forall>q < length h. same_or_popped (?h1 ! q) (h2 ! q)"
      and fr12: "\<forall>q < length h. q \<notin> nested ?h1 p \<longrightarrow> h2 ! q = ?h1 ! q"
      by (simp_all add: call_post_def)
    note h3 = store_setitem_Inr[OF s]
    have nb2: "nb < length h2" using nb len2 by simp
    have "\<forall>x \<in> refs_val r. x < length h2" using r len2 by simp
    with cl2 nb2 have cl3: "closed h3" using s by (rule closed_store_setitem)
    have sp01: "\<forall>q < length h. same_or_popped (h ! q) (?h1 ! q)"
      by (simp add: store_pop_same_or_popped)
    have sp03: "same_or_popped (h ! q) (h3 ! q)" if "q < length h" "q \<noteq> nb" for q
    proof -
      have "same_or_popped (h ! q) (h2 ! q)"
        using sp01 sp12 that(1) same_or_popped_trans by blast
      then show ?thesis using h3(2) that(2) by simp
    qed
    have sp03m: "\<forall>q < m. same_or_popped (h ! q) (h3 ! q)"
      using sp03 m nb by auto
    have old3: "\<forall>q < m. \<forall>x \<in> refs_obj (h3 ! q). x < m"
    proof (intro allI impI ballI)
      fix q x assume q: "q < m" and x: "x \<in> refs_obj (h3 ! q)"
      from sp03m q have "refs_obj (h3 ! q) \<subseteq> refs_obj (h ! q)"
        using same_or_popped_refs by blast
      with x old q show "x < m" by blast
    qed
    have "loop_pre m h3 rest nb"
      using cl3 m nb2 old3 rrefs by (simp add: loop_pre_def h3(1))
    then have post: "loop_post m h3 rest nb h'" using l by (rule Cons.IH)
    have "h' ! q = h ! q"
      if q: "q < m" and ex: "\<forall>kv \<in> set (kv # rest). \<forall>p. snd kv = SRef p \<longrightarrow> q \<noteq> p \<and> q \<notin> nested h p"
      for q
    proof -
      have ql: "q < length h" and qnb: "q \<noteq> nb" using q m nb by simp_all
      from ex have qp: "q \<noteq> p" and qn: "q \<notin> nested h p" by (simp_all add: kv p(1))
      have e1: "?h1 ! q = h ! q" using qp by (rule store_pop_other)
      have "q \<in> nested h p" if "q \<in> nested ?h1 p"
        using old _ _ pm that by (rule nested_shrinks) (use m nb sp01 in auto)
      with qn have "q \<notin> nested ?h1 p" by blast
      with fr12 ql have e2: "h2 ! q = ?h1 ! q" by simp
      have e3: "h3 ! q = h2 ! q" using h3(2) qnb by simp
      have "\<forall>kv \<in> set rest. \<forall>p. snd kv = SRef p \<longrightarrow> q \<noteq> p \<and> q \<notin> nested h3 p"
      proof (intro ballI allI impI)
        fix kv' p' assume kv': "kv' \<in> set rest" and p': "snd kv' = SRef p'"
        then have pm': "p' < m" using rrefs by force
        from ex kv' p' have "q \<noteq> p'" "q \<notin> nested h p'" by auto
        moreover have "q \<in> nested h p'" if "q \<in> nested h3 p'"
          using old _ sp03m pm' that by (rule nested_shrinks) (use m nb in simp)
        ultimately show "q \<noteq> p' \<and> q \<notin> nested h3 p'" by blast
      qed
      with post q have "h' ! q = h3 ! q" by (simp add: loop_post_def)
      with e1 e2 e3 show ?thesis by simp
    qed
    moreover have "same_or_popped (h ! q) (h' ! q)" if "q < length h" "q \<noteq> nb" for q
    proof -
      have "same_or_popped (h3 ! q) (h' ! q)"
        using post that len2 by (simp add: loop_post_def h3(1))
      with sp03[OF that] show ?thesis by (rule same_or_popped_trans)
    qed
    moreover have "length h \<le> length h'" "closed h'"
      using post len2 by (simp_all add: loop_post_def h3(1))
    ultimately show ?thesis by (simp add: loop_post_def)
  qed
qed

lemma call_frame:
  "closed h \<Longrightarrow> store_merge_a_into_b n h a b = Some (Inr (r, h')) \<Longrightarrow> call_post h a r h'"
proof (induction n arbitrary: h a b r h')
  case 0
  then show ?case by simp
next
  case (Suc n)
  from Suc.prems(2) obtain pb where b: "b = SRef pb"
    by (cases b) simp_all
  from Suc.prems(2) have pb: "pb < length h" and a: "a < length h"
    unfolding b by (auto split: if_splits)
  let ?nb = "length h" and ?h1 = "h @ [h ! pb]"
  from Suc.prems(2) pb a obtain items where
    ha: "h ! a = Dict items" and
    l: "store_merge_items n ?h1 items ?nb = Some (Inr h')" and
    r: "r = SRef ?nb"
    unfolding b
    by (auto simp: Let_def nth_append split: obj.splits option.splits sum.splits)
  have cl: "closed h" by fact
  have cl1: "closed ?h1" using cl pb by (rule closed_copy)
  have old: "\<forall>q < ?nb. \<forall>x \<in> refs_obj (?h1 ! q). x < ?nb"
    using cl by (auto simp: closed_iff nth_append)
  have irefs: "\<forall>kv \<in> set items. \<forall>x \<in> refs_val (snd kv). x < ?nb"
  proof (intro ballI)
    fix kv x assume "kv \<in> set items" "x \<in> refs_val (snd kv)"
    then have "x \<in> refs_obj (h ! a)" unfolding ha by auto
    with cl a show "x < ?nb" by (auto simp: closed_iff)
  qed
  have pre: "loop_pre ?nb ?h1 items ?nb"
    using cl1 old irefs by (simp add: loop_pre_def)
  have post: "loop_post ?nb ?h1 items ?nb h'"
    by (rule loop_frame[OF Suc.IH pre l])
  have same1: "\<forall>q < ?nb. same_or_popped (h ! q) (?h1 ! q)"
    by (simp add: nth_append)
  have "h' ! q = h ! q" if q: "q < ?nb" and qn: "q \<notin> nested h a" for q
  proof -
    have "\<forall>kv \<in> set items. \<forall>p. snd kv = SRef p \<longrightarrow> q \<noteq> p \<and> q \<notin> nested ?h1 p"
    proof (intro ballI allI impI)
      fix kv p assume kv: "kv \<in> set items" and p: "snd kv = SRef p"
      then have "(fst kv, SRef p) \<in> set items" by (metis prod.collapse)
      with a ha have pa: "p \<in> nested h a" by (rule nested_child)
      have pm: "p < ?nb" using irefs kv p by force
      have "q \<in> nested h p" if "q \<in> nested ?h1 p"
        using _ _ same1 pm that by (rule nested_shrinks) (use cl in \<open>auto simp: closed_iff\<close>)
      with pa qn nested_trans have "q \<notin> nested ?h1 p" by blast
      moreover from pa qn have "q \<noteq> p" by blast
      ultimately show "q \<noteq> p \<and> q \<notin> nested ?h1 p" by blast
    qed
    with post q have "h' ! q = ?h1 ! q" by (simp add: loop_post_def)
    with q show ?thesis by (simp add: nth_append)
  qed
  moreover have "same_or_popped (h ! q) (h' ! q)" if "q < ?nb" for q
  proof -
    from post that have "same_or_popped (?h1 ! q) (h' ! q)" by (simp add: loop_post_def)
    with that show ?thesis by (simp add: nth_append)
  qed
  moreover have "length h < length h'" "closed h'"
    using post by (simp_all add: loop_post_def)
  ultimately show ?case using r by (simp add: call_post_def)
qed

subsection \<open>The frame of the merge\<close>

lemmas store_ops = store_contains_def store_getitem_def store_setitem_def store_pop_def

text \<open>
  Claim C5 says that the merge writes to neither argument nor to their nested mappings,
  and that the result is a new mapping. \<open>v.pop("_delete_", False)\<close> writes to the nested
  mapping of the overlay. In the store below, the overlay \<open>{k: {_delete_: True, x: 1}}\<close>
  is the object 0 with its nested mapping at 1, and the base \<open>{k: {}}\<close> is the object 2
  with its nested mapping at 3. After the call the object 1 is \<open>{x: 1}\<close>: the overlay is
  not equal to its value before the call. The objects 0, 2 and 3 are as before, and the
  result is the new object 4, with the new merged mapping 5 under \<open>k\<close>.
\<close>

theorem store_merge_pops_overlay_counterexample:
  "store_merge_a_into_b 2
     [Dict [(''k'', SRef 1)], Dict [(''_delete_'', SBool True), (''x'', SInt 1)],
      Dict [(''k'', SRef 3)], Dict []]
     0 (SRef 2)
   = Some (Inr (SRef 4,
        [Dict [(''k'', SRef 1)], Dict [(''x'', SInt 1)],
         Dict [(''k'', SRef 3)], Dict [],
         Dict [(''k'', SRef 5)], Dict [(''x'', SInt 1)]]))"
  by (simp add: store_ops Let_def numeral_2_eq_2)

text \<open>
  Claim C5, amended: in a store in which every reference is to an object of the store, a
  call of the merge that returns gives a reference to a new object, and every object
  that was in the store before the call is as it was, except that a mapping nested in
  the overlay may have lost its key \<open>_delete_\<close>. So the base and the mappings nested
  in it are equal to their values before the call unless the overlay shares them, the
  overlay keeps its own items, and of the mappings nested in the overlay nothing
  changes but the removal of \<open>_delete_\<close>.
\<close>

theorem store_merge_a_into_b_frame:
  assumes "closed h" and "store_merge_a_into_b n h a b = Some (Inr (r, h'))"
  shows "r = SRef (length h) \<and> length h < length h' \<and>
         (\<forall>q < length h. same_or_popped (h ! q) (h' ! q) \<and>
                          (q \<notin> nested h a \<longrightarrow> h' ! q = h ! q))"
proof -
  from assms have "call_post h a r h'" by (rule call_frame)
  then show ?thesis by (simp add: call_post_def)
qed

theorem store_merge_a_into_b_frame_witness:
  "closed [Dict [(''k'', SRef 1)], Dict [(''_delete_'', SBool True), (''x'', SInt 1)],
           Dict [(''k'', SRef 3)], Dict []] \<and>
   store_merge_a_into_b 2
     [Dict [(''k'', SRef 1)], Dict [(''_delete_'', SBool True), (''x'', SInt 1)],
      Dict [(''k'', SRef 3)], Dict []]
     0 (SRef 2)
   = Some (Inr (SRef 4,
        [Dict [(''k'', SRef 1)], Dict [(''x'', SInt 1)],
         Dict [(''k'', SRef 3)], Dict [],
         Dict [(''k'', SRef 5)], Dict [(''x'', SInt 1)]])) \<and>
   nested [Dict [(''k'', SRef 1)], Dict [(''_delete_'', SBool True), (''x'', SInt 1)],
           Dict [(''k'', SRef 3)], Dict []] 0 = {1} \<and>
   same_or_popped (Dict [(''_delete_'', SBool True), (''x'', SInt 1)]) (Dict [(''x'', SInt 1)])"
proof -
  let ?h = "[Dict [(''k'', SRef 1)], Dict [(''_delete_'', SBool True), (''x'', SInt 1)],
             Dict [(''k'', SRef 3)], Dict []]"
  let ?h' = "[Dict [(''k'', SRef 1)], Dict [(''x'', SInt 1)],
              Dict [(''k'', SRef 3)], Dict [],
              Dict [(''k'', SRef 5)], Dict [(''x'', SInt 1)]]"
  have less4: "q < Suc (Suc (Suc (Suc 0))) \<longleftrightarrow> q = 0 \<or> q = 1 \<or> q = 2 \<or> q = 3" for q
    by auto
  have cl: "closed ?h" by (simp add: closed_def)
  have m: "store_merge_a_into_b 2 ?h 0 (SRef 2) = Some (Inr (SRef 4, ?h'))"
    by (simp add: store_ops Let_def numeral_2_eq_2)
  have ch: "child ?h = {(0, 1), (2, 3)}"
    by (auto simp: child_def less4)
  have "(x, y) \<in> {(0, 1), (2, 3)}" if "(x, y) \<in> {(0::nat, 1::nat), (2, 3)}\<^sup>+" for x y
    using that by (induction rule: trancl_induct) auto
  then have tr: "{(0::nat, 1::nat), (2, 3)}\<^sup>+ = {(0, 1), (2, 3)}" by auto
  have n: "nested ?h 0 = {1}" unfolding nested_def ch tr by auto
  from store_merge_a_into_b_frame[OF cl m]
  have "same_or_popped (?h ! 1) (?h' ! 1)" by simp
  then have "same_or_popped (Dict [(''_delete_'', SBool True), (''x'', SInt 1)]) (Dict [(''x'', SInt 1)])"
    by simp
  with cl m n show ?thesis by (intro conjI)
qed

text \<open>
  The exception for shared objects is needed. When the overlay and the base hold the same
  nested mapping under \<open>k\<close> (the object 1 below), the pop through the overlay is a write
  to the mapping nested in the base.
\<close>

lemma store_merge_shared_nested:
  "store_merge_a_into_b 2
     [Dict [(''k'', SRef 1)], Dict [(''_delete_'', SBool True), (''x'', SInt 1)],
      Dict [(''k'', SRef 1)]]
     0 (SRef 2)
   = Some (Inr (SRef 3,
        [Dict [(''k'', SRef 1)], Dict [(''x'', SInt 1)],
         Dict [(''k'', SRef 1)],
         Dict [(''k'', SRef 4)], Dict [(''x'', SInt 1)]]))"
  by (simp add: store_ops Let_def numeral_2_eq_2)

subsection \<open>The merged mapping, key by key\<close>

text \<open>
  The result of a call is described on the store, where a value of the overlay that is
  kept is kept as the same object, and where a mapping that two keys hold is one object.
  \<open>obj_keys\<close> are the keys of a dictionary object.
\<close>

fun obj_keys :: "obj \<Rightarrow> string set" where
  "obj_keys (Dict d) = fst ` set d"
| "obj_keys (List xs) = {}"





lemma same_or_popped_no_delete:
  "same_or_popped x y \<Longrightarrow> ''_delete_'' \<notin> obj_keys x \<Longrightarrow> y = x"
  by (cases x) (auto simp: AList.delete_id)



















subsection \<open>The call\<close>







subsection \<open>The merge, key by key\<close>



text \<open>
  In the store of the example the overlay holds one mapping, the object 1, under both
  \<open>j\<close> and \<open>k\<close>, and the base has only \<open>k\<close>. The result holds the object 1 itself under
  \<open>j\<close>, and that object has lost \<open>_delete_\<close> through the descent at \<open>k\<close>: read through the
  result, \<open>j\<close> is \<open>{x: 1}\<close>.
\<close>




section \<open>Instantiation descriptors\<close>

text \<open>
  \<^verbatim>\<open>
  def convert_instance_config(config: object) -> object:
      if isinstance(config, dict):
          if "type" in config:
              type_name = config["type"]
              if "." in type_name:
                  idx = type_name.rindex(".")
                  module_path, class_name = type_name[:idx], type_name[idx + 1 :]
              else:
                  module_path, class_name = "", type_name
              kwargs = {}
              for k, v in config.items():
                  if k == "type":
                      continue
                  kwargs[k] = convert_instance_config(v)
              return {"class": class_name, "module_path": module_path, "kwargs": kwargs}
          else:
              return {k: convert_instance_config(v) for k, v in config.items()}
      elif isinstance(config, list):
          return [convert_instance_config(item) for item in config]
      elif isinstance(config, tuple):
          return tuple([convert_instance_config(item) for item in config])
      else:
          return config
  \<close>
  \<open>rindex\<close> is \<open>str.rindex\<close> for a character, the highest index at which it occurs; it
  is called only after the test that the character occurs. \<open>type_parts\<close> is the \<open>if\<close> that
  computes \<open>module_path\<close> and \<open>class_name\<close>. The test \<open>"." in type_name\<close> is written for a
  string, and Python evaluates it on whatever \<open>type\<close> holds: on a list or tuple it is
  membership, on a dictionary it is a key test, and when it holds \<open>rindex\<close> is missing
  (\<open>AttributeError\<close>); when it fails the value itself becomes \<open>class_name\<close>; on \<open>None\<close>,
  a boolean or a number the test raises \<open>TypeError\<close>.

  The three loops are \<open>convert_kwargs\<close> (with its \<open>continue\<close>), \<open>convert_values\<close> (the
  dictionary comprehension) and \<open>convert_elements\<close> (the list comprehensions). They build
  their result in iteration order; the keys they store are distinct, being keys of a
  dictionary.
\<close>


definition rindex :: "string \<Rightarrow> char \<Rightarrow> nat" where
  "rindex s c = length s - 1 - length (takeWhile (\<lambda>x. x \<noteq> c) (rev s))"

fun type_parts :: "val \<Rightarrow> error + (val \<times> val)" where
  "type_parts (VStr type_name) =
     (if CHR ''.'' \<in> set type_name then
        (let idx = rindex type_name CHR ''.''
         in Inr (VStr (take idx type_name), VStr (drop (idx + 1) type_name)))
      else Inr (VStr '''', VStr type_name))"
| "type_parts (VList xs) =
     (if VStr ''.'' \<in> set xs then Inl AttributeError else Inr (VStr '''', VList xs))"
| "type_parts (VTuple xs) =
     (if VStr ''.'' \<in> set xs then Inl AttributeError else Inr (VStr '''', VTuple xs))"
| "type_parts (VDict d) =
     (if has_key d ''.'' then Inl AttributeError else Inr (VStr '''', VDict d))"
| "type_parts _ = Inl TypeError"

fun convert_instance_config :: "val \<Rightarrow> error + val"
  and convert_kwargs :: "dict \<Rightarrow> error + dict"
  and convert_values :: "dict \<Rightarrow> error + dict"
  and convert_elements :: "val list \<Rightarrow> error + val list"
where
  "convert_instance_config (VDict config) =
     (if has_key config ''type'' then
        (case getitem config ''type'' of
           Inl e \<Rightarrow> Inl e
         | Inr type_name \<Rightarrow>
            (case type_parts type_name of
               Inl e \<Rightarrow> Inl e
             | Inr (module_path, class_name) \<Rightarrow>
                (case convert_kwargs config of
                   Inl e \<Rightarrow> Inl e
                 | Inr kwargs \<Rightarrow>
                     Inr (VDict [(''class'', class_name),
                                 (''module_path'', module_path),
                                 (''kwargs'', VDict kwargs)]))))
      else
        (case convert_values config of
           Inl e \<Rightarrow> Inl e
         | Inr d \<Rightarrow> Inr (VDict d)))"
| "convert_instance_config (VList xs) =
     (case convert_elements xs of Inl e \<Rightarrow> Inl e | Inr ys \<Rightarrow> Inr (VList ys))"
| "convert_instance_config (VTuple xs) =
     (case convert_elements xs of Inl e \<Rightarrow> Inl e | Inr ys \<Rightarrow> Inr (VTuple ys))"
| "convert_instance_config config = Inr config"
| "convert_kwargs [] = Inr []"
| "convert_kwargs ((k, v) # rest) =
     (if k = ''type'' then convert_kwargs rest
      else
        (case convert_instance_config v of
           Inl e \<Rightarrow> Inl e
         | Inr v' \<Rightarrow>
            (case convert_kwargs rest of
               Inl e \<Rightarrow> Inl e
             | Inr kwargs \<Rightarrow> Inr ((k, v') # kwargs))))"
| "convert_values [] = Inr []"
| "convert_values ((k, v) # rest) =
     (case convert_instance_config v of
        Inl e \<Rightarrow> Inl e
      | Inr v' \<Rightarrow>
         (case convert_values rest of
            Inl e \<Rightarrow> Inl e
          | Inr d \<Rightarrow> Inr ((k, v') # d)))"
| "convert_elements [] = Inr []"
| "convert_elements (item # rest) =
     (case convert_instance_config item of
        Inl e \<Rightarrow> Inl e
      | Inr item' \<Rightarrow>
         (case convert_elements rest of
            Inl e \<Rightarrow> Inl e
          | Inr ys \<Rightarrow> Inr (item' # ys)))"

subsection \<open>The normalizer in the spec's words\<close>

text \<open>
  The class is the part of the string after its last dot (the whole string when it has
  none), the module path the part before that dot (empty when it has none).
  \<open>normalize\<close> is the spec's description of the normalizer, case by case. The spec leaves
  a \<open>type\<close> that is not a string undefined; \<open>normalize\<close> treats such a mapping as one
  without \<open>type\<close>, and no theorem below depends on that choice. \<open>type_strings\<close> holds of
  the values in which every \<open>type\<close> key holds a string, \<open>no_type_key\<close> of those in which
  no mapping has the key \<open>type\<close>.
\<close>

definition class_of :: "string \<Rightarrow> string" where
  "class_of s = rev (takeWhile (\<lambda>c. c \<noteq> CHR ''.'') (rev s))"

definition module_of :: "string \<Rightarrow> string" where
  "module_of s = rev (drop 1 (dropWhile (\<lambda>c. c \<noteq> CHR ''.'') (rev s)))"

fun is_str :: "val \<Rightarrow> bool" where
  "is_str (VStr s) = True"
| "is_str _ = False"

definition type_string :: "dict \<Rightarrow> string option" where
  "type_string d = (case map_of d ''type'' of Some (VStr s) \<Rightarrow> Some s | _ \<Rightarrow> None)"

fun normalize :: "val \<Rightarrow> val" where
  "normalize (VDict d) =
     (case type_string d of
        Some s \<Rightarrow>
          VDict [(''class'', VStr (class_of s)),
                 (''module_path'', VStr (module_of s)),
                 (''kwargs'', VDict (map (\<lambda>kv. (fst kv, normalize (snd kv)))
                                        (filter (\<lambda>kv. fst kv \<noteq> ''type'') d)))]
      | None \<Rightarrow> VDict (map (\<lambda>kv. (fst kv, normalize (snd kv))) d))"
| "normalize (VList xs) = VList (map normalize xs)"
| "normalize (VTuple xs) = VTuple (map normalize xs)"
| "normalize v = v"

fun type_strings :: "val \<Rightarrow> bool" where
  "type_strings (VDict d) =
     ((case map_of d ''type'' of None \<Rightarrow> True | Some t \<Rightarrow> is_str t) \<and>
      (\<forall>v \<in> set (map snd d). type_strings v))"
| "type_strings (VList xs) = (\<forall>v \<in> set xs. type_strings v)"
| "type_strings (VTuple xs) = (\<forall>v \<in> set xs. type_strings v)"
| "type_strings _ = True"

fun no_type_key :: "val \<Rightarrow> bool" where
  "no_type_key (VDict d) = (\<not> has_key d ''type'' \<and> (\<forall>v \<in> set (map snd d). no_type_key v))"
| "no_type_key (VList xs) = (\<forall>v \<in> set xs. no_type_key v)"
| "no_type_key (VTuple xs) = (\<forall>v \<in> set xs. no_type_key v)"
| "no_type_key _ = True"

subsection \<open>The code computes the spec's normalizer\<close>

lemma split_last_dot:
  assumes "CHR ''.'' \<in> set s"
  shows "s = module_of s @ ''.'' @ class_of s" and "CHR ''.'' \<notin> set (class_of s)"
proof -
  let ?P = "\<lambda>c. c \<noteq> CHR ''.''"
  from assms have "dropWhile ?P (rev s) \<noteq> []" by (simp add: dropWhile_eq_Nil_conv)
  then obtain rest where d: "dropWhile ?P (rev s) = CHR ''.'' # rest"
    using hd_dropWhile[of ?P "rev s"] by (cases "dropWhile ?P (rev s)") auto
  have "rev s = takeWhile ?P (rev s) @ dropWhile ?P (rev s)" by simp
  then have "rev s = takeWhile ?P (rev s) @ CHR ''.'' # rest" using d by simp
  then have "rev (rev s) = rev (takeWhile ?P (rev s) @ CHR ''.'' # rest)" by simp
  then have "s = rev rest @ ''.'' @ rev (takeWhile ?P (rev s))" by simp
  then show "s = module_of s @ ''.'' @ class_of s"
    by (simp add: module_of_def class_of_def d)
  show "CHR ''.'' \<notin> set (class_of s)"
    using set_takeWhileD[of "CHR ''.''" ?P "rev s"] by (auto simp: class_of_def)
qed

lemma no_dot_class_of:
  assumes "CHR ''.'' \<notin> set s"
  shows "class_of s = s \<and> module_of s = []"
proof -
  have t: "takeWhile (\<lambda>c. c \<noteq> CHR ''.'') (rev s) = rev s"
    using assms by (auto simp: takeWhile_eq_all_conv)
  have d: "dropWhile (\<lambda>c. c \<noteq> CHR ''.'') (rev s) = []"
    using assms by (auto simp: dropWhile_eq_Nil_conv)
  show ?thesis unfolding class_of_def module_of_def t d by simp
qed

lemma rindex_split:
  assumes "CHR ''.'' \<in> set s"
  shows "take (rindex s CHR ''.'') s = module_of s"
    and "drop (rindex s CHR ''.'' + 1) s = class_of s"
proof -
  let ?m = "module_of s" and ?c = "class_of s"
  have s: "s = ?m @ ''.'' @ ?c" using assms by (rule split_last_dot)
  have "length (takeWhile (\<lambda>c. c \<noteq> CHR ''.'') (rev s)) = length ?c"
    by (simp add: class_of_def)
  moreover have "length s = length ?m + 1 + length ?c"
    using arg_cong[OF s, of length] by simp
  ultimately have idx: "rindex s CHR ''.'' = length ?m"
    by (simp add: rindex_def)
  show "take (rindex s CHR ''.'') s = ?m"
    unfolding idx by (subst s) simp
  show "drop (rindex s CHR ''.'' + 1) s = ?c"
    unfolding idx by (subst s) simp
qed

lemma type_parts_str:
  "type_parts (VStr s) = Inr (VStr (module_of s), VStr (class_of s))"
  using rindex_split[of s] no_dot_class_of[of s] by (simp add: Let_def)

lemma convert_refines_normalize_all:
  "type_strings v \<Longrightarrow> convert_instance_config v = Inr (normalize v)"
  "\<forall>v \<in> set (map snd d). type_strings v \<Longrightarrow>
     convert_kwargs d =
       Inr (map (\<lambda>kv. (fst kv, normalize (snd kv))) (filter (\<lambda>kv. fst kv \<noteq> ''type'') d))"
  "\<forall>v \<in> set (map snd d'). type_strings v \<Longrightarrow>
     convert_values d' = Inr (map (\<lambda>kv. (fst kv, normalize (snd kv))) d')"
  "\<forall>v \<in> set xs. type_strings v \<Longrightarrow> convert_elements xs = Inr (map normalize xs)"
proof (induction v and d and d' and xs
    rule: convert_instance_config_convert_kwargs_convert_values_convert_elements.induct)
  case (1 config)
  have vals: "\<forall>v \<in> set (map snd config). type_strings v"
    using "1.prems" by simp
  show ?case
  proof (cases "map_of config ''type''")
    case None
    then have nk: "\<not> has_key config ''type''" by (simp add: has_key_map_of)
    from "1.IH"(2)[OF nk vals] nk None show ?thesis by (simp add: type_string_def)
  next
    case (Some t)
    then obtain s where t: "t = VStr s" using "1.prems" by (cases t) simp_all
    have hk: "has_key config ''type''" using Some by (simp add: has_key_map_of)
    have gi: "getitem config ''type'' = Inr (VStr s)" using Some t by simp
    have tp: "type_parts (VStr s) = Inr (VStr (module_of s), VStr (class_of s))"
      by (rule type_parts_str)
    from "1.IH"(1)[OF hk gi tp refl vals] hk gi tp Some t show ?thesis
      by (simp add: type_string_def)
  qed
qed (auto split: sum.splits)

lemma normalize_no_type_key:
  "type_strings v \<Longrightarrow> no_type_key (normalize v)"
proof (induction v rule: normalize.induct)
  case (1 d)
  have vals: "\<And>kv. kv \<in> set d \<Longrightarrow> type_strings (snd kv)"
    using "1.prems" by simp
  show ?case
  proof (cases "type_string d")
    case None
    then have "map_of d ''type'' = None"
      using "1.prems" by (auto simp: type_string_def split: option.splits val.splits)
    then have "''type'' \<notin> fst ` set d" by (simp add: map_of_eq_None_iff)
    moreover have "no_type_key (normalize (snd kv))" if "kv \<in> set d" for kv
      using "1.IH"(1)[OF None that] vals[OF that] .
    ultimately show ?thesis using None by (auto simp: has_key_def)
  next
    case (Some s)
    have "no_type_key (normalize (snd kv))"
      if "kv \<in> set (filter (\<lambda>kv. fst kv \<noteq> ''type'') d)" for kv
      using "1.IH"(2)[OF Some that] vals that by simp
    then show ?thesis using Some by (auto simp: has_key_def)
  qed
qed simp_all

lemma convert_fixed_all:
  "no_type_key v \<Longrightarrow> convert_instance_config v = Inr v"
  "\<not> has_key d ''type'' \<Longrightarrow> \<forall>v \<in> set (map snd d). no_type_key v \<Longrightarrow> convert_kwargs d = Inr d"
  "\<forall>v \<in> set (map snd d'). no_type_key v \<Longrightarrow> convert_values d' = Inr d'"
  "\<forall>v \<in> set xs. no_type_key v \<Longrightarrow> convert_elements xs = Inr xs"
proof (induction v and d and d' and xs
    rule: convert_instance_config_convert_kwargs_convert_values_convert_elements.induct)
  case (1 config)
  then show ?case by simp
qed (auto simp: has_key_def split: sum.splits)

subsection \<open>Claims about the normalizer\<close>

text \<open>
  Claim C4: on a mapping whose \<open>type\<close> is a string the normalizer splits the string on its
  last dot into \<open>module_path\<close> and \<open>class\<close>, normalizes every other key's value into
  \<open>kwargs\<close> and returns the descriptor; a mapping without \<open>type\<close> keeps its keys and has
  its values normalized; lists and tuples are rebuilt element by element, in order, a
  tuple staying a tuple; every other value is returned as it is. \<open>normalize\<close> says this
  in the spec's words, and \<open>convert_instance_config\<close> computes it on every value in which
  the \<open>type\<close> keys hold strings, raising nothing.
\<close>

theorem convert_instance_config_normalizes:
  assumes "type_strings v"
  shows "convert_instance_config v = Inr (normalize v)"
  using assms by (rule convert_refines_normalize_all(1))

theorem convert_instance_config_normalizes_witness:
  "type_strings (VDict [(''type'', VStr ''pkg.mod.ClassName''), (''a'', VInt 1),
                        (''b'', VDict [(''type'', VStr ''X''), (''c'', VInt 2)])]) \<and>
   convert_instance_config
       (VDict [(''type'', VStr ''pkg.mod.ClassName''), (''a'', VInt 1),
               (''b'', VDict [(''type'', VStr ''X''), (''c'', VInt 2)])])
     = Inr (VDict [(''class'', VStr ''ClassName''),
                   (''module_path'', VStr ''pkg.mod''),
                   (''kwargs'', VDict [(''a'', VInt 1),
                                       (''b'', VDict [(''class'', VStr ''X''),
                                                      (''module_path'', VStr []),
                                                      (''kwargs'', VDict [(''c'', VInt 2)])])])])"
proof -
  let ?x = "VDict [(''type'', VStr ''pkg.mod.ClassName''), (''a'', VInt 1),
                   (''b'', VDict [(''type'', VStr ''X''), (''c'', VInt 2)])]"
  have t: "type_strings ?x" by simp
  have "normalize ?x = VDict [(''class'', VStr ''ClassName''),
                   (''module_path'', VStr ''pkg.mod''),
                   (''kwargs'', VDict [(''a'', VInt 1),
                                       (''b'', VDict [(''class'', VStr ''X''),
                                                      (''module_path'', VStr []),
                                                      (''kwargs'', VDict [(''c'', VInt 2)])])])]"
    by (simp add: type_string_def class_of_def module_of_def)
  with convert_instance_config_normalizes[OF t] t show ?thesis by simp
qed

text \<open>
  Claim C10 says that on every value the output of the normalizer holds no key \<open>type\<close>
  and is a fixed point. A \<open>type\<close> that is a mapping has no dot among its keys, so it
  becomes the \<open>class\<close> of the descriptor as it is, not normalized: for \<open>{type: {type: "x"}}\<close>
  the output is \<open>{class: {type: "x"}, module_path: "", kwargs: {}}\<close>, which holds the key
  \<open>type\<close>, and a second application turns the inner mapping into a descriptor.
\<close>

theorem convert_twice_counterexample:
  "convert_instance_config (VDict [(''type'', VDict [(''type'', VStr ''x'')])])
     = Inr (VDict [(''class'', VDict [(''type'', VStr ''x'')]),
                   (''module_path'', VStr []),
                   (''kwargs'', VDict [])]) \<and>
   convert_instance_config (VDict [(''class'', VDict [(''type'', VStr ''x'')]),
                                   (''module_path'', VStr []),
                                   (''kwargs'', VDict [])])
     = Inr (VDict [(''class'', VDict [(''class'', VStr ''x''),
                                      (''module_path'', VStr []),
                                      (''kwargs'', VDict [])]),
                   (''module_path'', VStr []),
                   (''kwargs'', VDict [])])"
  by (simp add: dict_ops)

text \<open>
  Claim C10, amended: for every value in which each \<open>type\<close> key holds a string, the
  normalizer returns a value in which no mapping has the key \<open>type\<close>, and applied to that
  value it returns it unchanged.
\<close>

theorem convert_instance_config_idempotent:
  assumes "type_strings v"
  shows "\<exists>w. convert_instance_config v = Inr w \<and> no_type_key w \<and>
             convert_instance_config w = Inr w"
proof -
  have "convert_instance_config v = Inr (normalize v)"
    using assms by (rule convert_refines_normalize_all(1))
  moreover have n: "no_type_key (normalize v)"
    using assms by (rule normalize_no_type_key)
  moreover have "convert_instance_config (normalize v) = Inr (normalize v)"
    using n by (rule convert_fixed_all(1))
  ultimately show ?thesis by blast
qed

theorem convert_instance_config_idempotent_witness:
  "type_strings (VDict [(''type'', VStr ''pkg.mod.ClassName''), (''a'', VList [VInt 1])]) \<and>
   convert_instance_config (VDict [(''type'', VStr ''pkg.mod.ClassName''), (''a'', VList [VInt 1])])
     = Inr (VDict [(''class'', VStr ''ClassName''), (''module_path'', VStr ''pkg.mod''),
                   (''kwargs'', VDict [(''a'', VList [VInt 1])])]) \<and>
   no_type_key (VDict [(''class'', VStr ''ClassName''), (''module_path'', VStr ''pkg.mod''),
                       (''kwargs'', VDict [(''a'', VList [VInt 1])])]) \<and>
   convert_instance_config (VDict [(''class'', VStr ''ClassName''), (''module_path'', VStr ''pkg.mod''),
                                   (''kwargs'', VDict [(''a'', VList [VInt 1])])])
     = Inr (VDict [(''class'', VStr ''ClassName''), (''module_path'', VStr ''pkg.mod''),
                   (''kwargs'', VDict [(''a'', VList [VInt 1])])])"
proof -
  let ?x = "VDict [(''type'', VStr ''pkg.mod.ClassName''), (''a'', VList [VInt 1])]"
  let ?y = "VDict [(''class'', VStr ''ClassName''), (''module_path'', VStr ''pkg.mod''),
                   (''kwargs'', VDict [(''a'', VList [VInt 1])])]"
  have t: "type_strings ?x" by simp
  have c: "convert_instance_config ?x = Inr ?y"
    by (simp add: dict_ops rindex_def)
  from convert_instance_config_idempotent[OF t] obtain w where
    "convert_instance_config ?x = Inr w" "no_type_key w" "convert_instance_config w = Inr w"
    by blast
  with c have "no_type_key ?y" "convert_instance_config ?y = Inr ?y" by simp_all
  with t c show ?thesis by blast
qed

section \<open>Loading a configuration file\<close>

text \<open>
  The loader reads the file system, runs Python modules and keeps two pieces of
  interpreter state. The state is \<open>sys.path\<close> and the keys and modules of \<open>sys.modules\<close>.
\<close>

record sys_state =
  sys_path :: "string list"
  sys_modules :: "(string \<times> dict) list"

text \<open>
  Everything else the loader calls is outside this module and is a parameter of the
  model: the functions of \<open>os.path\<close>, the names \<open>tempfile\<close> hands out for the directory
  and the module of the copy of a file, what running a Python file binds at its top level
  (its \<open>__dict__\<close>, or the exception it raises) and what \<open>yaml.safe_load\<close> makes of a
  file (a mapping, as the return type of the loader says, or the parser's exception).
  The copy has the content of the file, so the last two are indexed by the path of the
  original. Failures of the temporary directory or of the copy are not modelled.
\<close>

record world =
  os_abspath :: "string \<Rightarrow> string"
  os_isfile :: "string \<Rightarrow> bool"
  os_splitext :: "string \<Rightarrow> string \<times> string"
  os_dirname :: "string \<Rightarrow> string"
  os_join :: "string \<Rightarrow> string \<Rightarrow> string"
  tmp_config_dir :: "string \<Rightarrow> string"
  tmp_module_name :: "string \<Rightarrow> string"
  exec_module :: "string \<Rightarrow> error + dict"
  safe_load :: "string \<Rightarrow> error + dict"

definition startswith :: "string \<Rightarrow> string \<Rightarrow> bool" where
  "startswith s p = (take (length p) s = p)"

definition endswith :: "string \<Rightarrow> string \<Rightarrow> bool" where
  "endswith s p = (length p \<le> length s \<and> drop (length s - length p) s = p)"

text \<open>
  \<open>import_module(name)\<close>: a module already in \<open>sys.modules\<close> is returned as it is;
  otherwise the file is run, and the module is registered when that succeeds. A module
  whose execution raises is not left in \<open>sys.modules\<close>.
\<close>

definition import_module :: "world \<Rightarrow> string \<Rightarrow> string \<Rightarrow> sys_state \<Rightarrow> (error + dict) \<times> sys_state" where
  "import_module w abs_path name s =
     (case map_of (sys_modules s) name of
        Some bindings \<Rightarrow> (Inr bindings, s)
      | None \<Rightarrow>
         (case exec_module w abs_path of
            Inl e \<Rightarrow> (Inl e, s)
          | Inr bindings \<Rightarrow> (Inr bindings, s\<lparr>sys_modules := (name, bindings) # sys_modules s\<rparr>)))"

text \<open>
  Lines 38 to 56 of \<open>parse_backtest_config\<close>, the \<open>with\<close> block that copies the file and
  reads the copy:
  \<^verbatim>\<open>
        if abs_path.endswith(".py"):
            tmp_module_name = os.path.splitext(tmp_config_name)[0]
            sys.path.insert(0, tmp_config_dir)
            module = import_module(tmp_module_name)
            sys.path.pop(0)
            config = {k: v for k, v in module.__dict__.items() if not k.startswith("__")}
            del sys.modules[tmp_module_name]
        else:
            config = yaml.safe_load(open(os.path.join(tmp_config_dir, tmp_config_file.name)))
  \<close>
  An exception of \<open>import_module\<close> leaves the block at once: there is no \<open>try\<close> around
  it, so the two statements that undo the changes are not reached.
\<close>

definition read_config :: "world \<Rightarrow> string \<Rightarrow> sys_state \<Rightarrow> (error + dict) \<times> sys_state" where
  "read_config w abs_path s =
     (if endswith abs_path ''.py'' then
        (let name = tmp_module_name w abs_path;
             s1 = s\<lparr>sys_path := tmp_config_dir w abs_path # sys_path s\<rparr>
         in case import_module w abs_path name s1 of
              (Inl e, s2) \<Rightarrow> (Inl e, s2)
            | (Inr module_dict, s2) \<Rightarrow>
                (let s3 = s2\<lparr>sys_path := tl (sys_path s2)\<rparr>;
                     config = filter (\<lambda>kv. \<not> startswith (fst kv) ''__'') module_dict;
                     s4 = s3\<lparr>sys_modules := AList.delete name (sys_modules s3)\<rparr>
                 in (Inr config, s4)))
      else (safe_load w abs_path, s))"

text \<open>
  \<^verbatim>\<open>
  def parse_backtest_config(path: str) -> dict:
      abs_path = os.path.abspath(path)
      check_file_exist(abs_path)

      file_ext_name = os.path.splitext(abs_path)[1]
      if file_ext_name not in (".py", ".json", ".yaml", ".yml"):
          raise IOError("Only py/yml/yaml/json type are supported now!")

      with tempfile.TemporaryDirectory() as tmp_config_dir:
          ...
      if "_base_" in config:
          base_file_name = config.pop("_base_")
          if not isinstance(base_file_name, list):
              base_file_name = [base_file_name]

          for f in base_file_name:
              base_config = parse_backtest_config(os.path.join(os.path.dirname(abs_path), f))
              config = merge_a_into_b(a=config, b=base_config)

      return config
  \<close>
  \<open>check_file_exist\<close> raises \<open>FileNotFoundError('file "{}" does not exist'.format(filename))\<close>.
  A chain of \<open>_base_\<close> references can be circular, so the recursion carries the depth it
  may still go to and the result is \<open>None\<close> when that is used up. \<open>merge_bases\<close> is the
  \<open>for\<close> loop; \<open>os.path.join\<close> raises \<open>TypeError\<close> on a base name that is not a string.
  The loop keeps the result of each merge and drops the overlay it passed.
\<close>

definition check_file_exist :: "world \<Rightarrow> string \<Rightarrow> error + unit" where
  "check_file_exist w filename =
     (if \<not> os_isfile w filename
      then Inl (FileNotFoundError (''file '' @ [CHR 0x22] @ filename @ [CHR 0x22] @ '' does not exist''))
      else Inr ())"

definition base_names :: "val \<Rightarrow> val list" where
  "base_names base_file_name = (case base_file_name of VList fs \<Rightarrow> fs | _ \<Rightarrow> [base_file_name])"

fun parse_backtest_config ::
    "nat \<Rightarrow> world \<Rightarrow> string \<Rightarrow> sys_state \<Rightarrow> ((error + dict) \<times> sys_state) option"
  and merge_bases ::
    "nat \<Rightarrow> world \<Rightarrow> string \<Rightarrow> val list \<Rightarrow> dict \<Rightarrow> sys_state \<Rightarrow> ((error + dict) \<times> sys_state) option"
where
  "parse_backtest_config 0 w path s = None"
| "parse_backtest_config (Suc n) w path s =
     (let abs_path = os_abspath w path in
      case check_file_exist w abs_path of
        Inl e \<Rightarrow> Some (Inl e, s)
      | Inr _ \<Rightarrow>
         (let file_ext_name = snd (os_splitext w abs_path) in
          if file_ext_name \<notin> set [''.py'', ''.json'', ''.yaml'', ''.yml'']
          then Some (Inl (IOError ''Only py/yml/yaml/json type are supported now!''), s)
          else
            (case read_config w abs_path s of
               (Inl e, s1) \<Rightarrow> Some (Inl e, s1)
             | (Inr config, s1) \<Rightarrow>
                (case map_of config ''_base_'' of
                   None \<Rightarrow> Some (Inr config, s1)
                 | Some base_file_name \<Rightarrow>
                     merge_bases n w abs_path (base_names base_file_name)
                       (pop_key ''_base_'' config) s1))))"
| "merge_bases n w abs_path [] config s = Some (Inr config, s)"
| "merge_bases n w abs_path (f # fs) config s =
     (case f of
        VStr name \<Rightarrow>
          (case parse_backtest_config n w (os_join w (os_dirname w abs_path) name) s of
             None \<Rightarrow> None
           | Some (Inl e, s1) \<Rightarrow> Some (Inl e, s1)
           | Some (Inr base_config, s1) \<Rightarrow>
              (case merge_a_into_b config (VDict base_config) of
                 Inl e \<Rightarrow> Some (Inl e, s1)
               | Inr (_, merged) \<Rightarrow> merge_bases n w abs_path fs (dict_items merged) s1))
      | _ \<Rightarrow> Some (Inl TypeError, s))"

subsection \<open>The vocabulary of the loader claims\<close>

text \<open>\<open>needle in haystack\<close> on strings.\<close>

fun str_contains :: "string \<Rightarrow> string \<Rightarrow> bool" where
  "str_contains [] needle = (needle = [])"
| "str_contains (c # cs) needle = (startswith (c # cs) needle \<or> str_contains cs needle)"


text \<open>
  Repeated deep merge over the loaded bases, the growing result being the overlay of each
  merge and the next base its base.
\<close>

fun fold_bases :: "dict \<Rightarrow> dict list \<Rightarrow> error + dict" where
  "fold_bases config [] = Inr config"
| "fold_bases config (base # bases) =
     (case merge_a_into_b config (VDict base) of
        Inl e \<Rightarrow> Inl e
      | Inr (_, merged) \<Rightarrow> fold_bases (dict_items merged) bases)"

subsection \<open>A small world for the examples\<close>

text \<open>
  \<open>posixpath.join\<close> for two components, \<open>posixpath.dirname\<close> and \<open>posixpath.splitext\<close>,
  and \<open>abspath\<close> for paths that hold no \<open>.\<close> or \<open>..\<close> component, in the directory \<open>cwd\<close>.
\<close>

definition posix_join :: "string \<Rightarrow> string \<Rightarrow> string" where
  "posix_join a b =
     (if startswith b ''/'' then b
      else if a = [] \<or> endswith a ''/'' then a @ b
      else a @ ''/'' @ b)"

definition posix_dirname :: "string \<Rightarrow> string" where
  "posix_dirname p =
     (let head = rev (dropWhile (\<lambda>c. c \<noteq> CHR ''/'') (rev p))
      in if head \<noteq> [] \<and> set head \<noteq> {CHR ''/''}
         then rev (dropWhile (\<lambda>c. c = CHR ''/'') (rev head))
         else head)"

definition posix_splitext :: "string \<Rightarrow> string \<times> string" where
  "posix_splitext p =
     (let fname = rev (takeWhile (\<lambda>c. c \<noteq> CHR ''/'') (rev p));
          rest = dropWhile (\<lambda>c. c = CHR ''.'') fname
      in if CHR ''.'' \<in> set rest
         then (let ext = CHR ''.'' # rev (takeWhile (\<lambda>c. c \<noteq> CHR ''.'') (rev rest))
               in (take (length p - length ext) p, ext))
         else (p, []))"

definition posix_abspath :: "string \<Rightarrow> string \<Rightarrow> string" where
  "posix_abspath cwd p = (if startswith p ''/'' then p else posix_join cwd p)"

text \<open>
  The directory \<open>/cfg\<close> holds the base file \<open>A.yaml\<close> with \<open>{x: 1, y: {p: 1}}\<close>, the child
  \<open>B.yaml\<close> with \<open>{_base_: "A.yaml", y: {q: 2}, z: 3}\<close>, a text file, a Python
  configuration that binds \<open>x\<close>, a Python configuration whose execution raises, and
  \<open>C.yaml\<close> with \<open>{exchange: {open_cost: 0.01, order_types: [a, b]}}\<close>.
\<close>

definition example_files :: "(string \<times> (error + dict)) list" where
  "example_files =
     [(''/cfg/A.yaml'', Inr [(''x'', VInt 1), (''y'', VDict [(''p'', VInt 1)])]),
      (''/cfg/B.yaml'', Inr [(''_base_'', VStr ''A.yaml''), (''y'', VDict [(''q'', VInt 2)]), (''z'', VInt 3)]),
      (''/cfg/notes.txt'', Inl (ParseFailure ''notes.txt'')),
      (''/cfg/good.py'', Inr [(''__name__'', VStr ''tmpmod''), (''x'', VInt 1)]),
      (''/cfg/broken.py'', Inl (ImportFailure ''ZeroDivisionError'')),
      (''/cfg/C.yaml'', Inr [(''exchange'', VDict [(''open_cost'', VFloat 0.01),
                                                   (''order_types'', VList [VStr ''a'', VStr ''b''])])])]"

definition example_content :: "string \<Rightarrow> error + dict" where
  "example_content p =
     (case map_of example_files p of Some r \<Rightarrow> r | None \<Rightarrow> Inl (ParseFailure p))"

definition example_world :: world where
  "example_world =
     \<lparr>os_abspath = posix_abspath ''/cfg'',
      os_isfile = (\<lambda>p. p \<in> set (map fst example_files)),
      os_splitext = posix_splitext,
      os_dirname = posix_dirname,
      os_join = posix_join,
      tmp_config_dir = (\<lambda>p. ''/tmp/tmpdir''),
      tmp_module_name = (\<lambda>p. ''tmpmod''),
      exec_module = example_content,
      safe_load = example_content\<rparr>"

definition example_sys :: sys_state where
  "example_sys = \<lparr>sys_path = [''/usr/lib/python3''], sys_modules = [(''os'', [])]\<rparr>"

section \<open>Properties of the loader\<close>

lemma str_contains_prefix: "str_contains (p @ b) p"
proof (cases "p @ b")
  case Nil
  then show ?thesis by simp
next
  case (Cons c cs)
  have "startswith (p @ b) p" by (simp add: startswith_def)
  then show ?thesis by (simp add: Cons)
qed

lemma str_contains_infix: "str_contains (a @ p @ b) p"
proof (induction a)
  case Nil
  show ?case using str_contains_prefix[of p b] by simp
next
  case (Cons c a)
  then show ?case by simp
qed


lemma merge_dict_result:
  assumes "merge_a_into_b a (VDict b) = Inr (a', r)"
  obtains rd where "r = VDict rd" and "merge_items a b = Inr (a', rd)"
  using assms by (auto split: sum.splits)


lemma fold_bases_keys:
  "fold_bases config bases = Inr r \<Longrightarrow>
   fst ` set r = fst ` set config \<union> (\<Union>b \<in> set bases. fst ` set b)"
proof (induction bases arbitrary: config)
  case Nil
  then show ?case by simp
next
  case (Cons base bases)
  from Cons.prems(1) obtain a' merged where
    m: "merge_a_into_b config (VDict base) = Inr (a', merged)" and
    fr: "fold_bases (dict_items merged) bases = Inr r"
    by (auto split: sum.splits)
  from m obtain rd where rd: "merged = VDict rd" and l: "merge_items config base = Inr (a', rd)"
    by (rule merge_dict_result)
  have "fold_bases rd bases = Inr r" using fr rd by simp
  then have "fst ` set r = fst ` set rd \<union> (\<Union>b \<in> set bases. fst ` set b)"
    by (rule Cons.IH)
  with merge_items_result_keys[OF l] show ?case by auto
qed



lemma read_config_import_raises:
  assumes "endswith abs_path ''.py''"
    and "map_of (sys_modules s) (tmp_module_name w abs_path) = None"
    and "exec_module w abs_path = Inl e"
  shows "read_config w abs_path s
           = (Inl e, s\<lparr>sys_path := tmp_config_dir w abs_path # sys_path s\<rparr>)"
  using assms by (simp add: read_config_def import_module_def)

lemma read_config_restores:
  assumes fresh: "map_of (sys_modules s) (tmp_module_name w abs_path) = None"
    and rc: "read_config w abs_path s = (Inr config, s')"
  shows "s' = s"
proof (cases "endswith abs_path ''.py''")
  case False
  with rc show ?thesis by (simp add: read_config_def)
next
  case True
  let ?name = "tmp_module_name w abs_path"
  let ?s1 = "s\<lparr>sys_path := tmp_config_dir w abs_path # sys_path s\<rparr>"
  have absent: "?name \<notin> fst ` set (sys_modules s)"
    using fresh by (simp add: map_of_eq_None_iff)
  show ?thesis
  proof (cases "exec_module w abs_path")
    case (Inl e)
    then have "import_module w abs_path ?name ?s1 = (Inl e, ?s1)"
      using fresh by (simp add: import_module_def)
    with rc True show ?thesis by (simp add: read_config_def)
  next
    case (Inr bindings)
    then have "import_module w abs_path ?name ?s1
                 = (Inr bindings, ?s1\<lparr>sys_modules := (?name, bindings) # sys_modules ?s1\<rparr>)"
      using fresh by (simp add: import_module_def)
    with rc True absent show ?thesis by (auto simp: read_config_def Let_def)
  qed
qed

subsection \<open>The depth bound only cuts a load off\<close>

text \<open>A load that returns with some depth returns the same with any greater depth.\<close>

lemma merge_bases_Cons_str:
  "merge_bases n w abs_path (VStr name # fs) config s =
     (case parse_backtest_config n w (os_join w (os_dirname w abs_path) name) s of
        None \<Rightarrow> None
      | Some (Inl e, s1) \<Rightarrow> Some (Inl e, s1)
      | Some (Inr base_config, s1) \<Rightarrow>
         (case merge_a_into_b config (VDict base_config) of
            Inl e \<Rightarrow> Some (Inl e, s1)
          | Inr (_, merged) \<Rightarrow> merge_bases n w abs_path fs (dict_items merged) s1))"
  by simp

lemma merge_bases_more_depth:
  assumes loads: "\<And>path s r. parse_backtest_config n w path s = Some r \<Longrightarrow>
                    parse_backtest_config (Suc n) w path s = Some r"
  shows "merge_bases n w abs_path fs config s = Some r \<Longrightarrow>
         merge_bases (Suc n) w abs_path fs config s = Some r"
proof (induction fs arbitrary: config s)
  case Nil
  then show ?case by simp
next
  case (Cons f fs)
  note cases = option.case prod.case sum.case
  show ?case
  proof (cases f)
    case (VStr name)
    let ?p = "os_join w (os_dirname w abs_path) name"
    from Cons.prems obtain res s1 where
      p: "parse_backtest_config n w ?p s = Some (res, s1)"
      unfolding VStr merge_bases_Cons_str
      by (cases "parse_backtest_config n w ?p s") auto
    then have p': "parse_backtest_config (Suc n) w ?p s = Some (res, s1)" by (rule loads)
    show ?thesis
    proof (cases res)
      case (Inl e)
      have "merge_bases n w abs_path (f # fs) config s = Some (Inl e, s1)"
        by (simp only: VStr merge_bases_Cons_str p Inl cases)
      moreover have "merge_bases (Suc n) w abs_path (f # fs) config s = Some (Inl e, s1)"
        by (simp only: VStr merge_bases_Cons_str p' Inl cases)
      ultimately show ?thesis using Cons.prems by simp
    next
      case (Inr base_config)
      show ?thesis
      proof (cases "merge_a_into_b config (VDict base_config)")
        case (Inl e)
        have "merge_bases n w abs_path (f # fs) config s = Some (Inl e, s1)"
          by (simp only: VStr merge_bases_Cons_str p Inr Inl cases)
        moreover have "merge_bases (Suc n) w abs_path (f # fs) config s = Some (Inl e, s1)"
          by (simp only: VStr merge_bases_Cons_str p' Inr Inl cases)
        ultimately show ?thesis using Cons.prems by simp
      next
        case m: (Inr am)
        obtain a' merged where am: "am = (a', merged)" by (cases am)
        have "merge_bases n w abs_path (f # fs) config s
                = merge_bases n w abs_path fs (dict_items merged) s1"
          by (simp only: VStr merge_bases_Cons_str p Inr m am cases)
        with Cons.prems have "merge_bases n w abs_path fs (dict_items merged) s1 = Some r"
          by simp
        then have "merge_bases (Suc n) w abs_path fs (dict_items merged) s1 = Some r"
          by (rule Cons.IH)
        moreover have "merge_bases (Suc n) w abs_path (f # fs) config s
                = merge_bases (Suc n) w abs_path fs (dict_items merged) s1"
          by (simp only: VStr merge_bases_Cons_str p' Inr m am cases)
        ultimately show ?thesis by simp
      qed
    qed
  qed (use Cons.prems in simp_all)
qed

lemma parse_more_depth:
  "parse_backtest_config n w path s = Some r \<Longrightarrow>
   parse_backtest_config (Suc n) w path s = Some r"
proof (induction n arbitrary: path s r)
  case 0
  then show ?case by simp
next
  case (Suc n)
  let ?abs = "os_abspath w path"
  note cases = option.case prod.case sum.case if_True if_False
  define bad where
    "bad \<longleftrightarrow> snd (os_splitext w ?abs) \<notin> set [''.py'', ''.json'', ''.yaml'', ''.yml'']"
  have step: "parse_backtest_config (Suc m) w path s =
      (case check_file_exist w ?abs of
         Inl e \<Rightarrow> Some (Inl e, s)
       | Inr _ \<Rightarrow>
          if bad then Some (Inl (IOError ''Only py/yml/yaml/json type are supported now!''), s)
          else
            (case read_config w ?abs s of
               (Inl e, s1) \<Rightarrow> Some (Inl e, s1)
             | (Inr config, s1) \<Rightarrow>
                (case map_of config ''_base_'' of
                   None \<Rightarrow> Some (Inr config, s1)
                 | Some b \<Rightarrow>
                     merge_bases m w ?abs (base_names b) (pop_key ''_base_'' config) s1)))" for m
    unfolding bad_def by (simp only: parse_backtest_config.simps Let_def)
  have same: "parse_backtest_config (Suc (Suc n)) w path s = Some r"
    if "\<And>m. parse_backtest_config (Suc m) w path s = x" for x
    using that[of n] that[of "Suc n"] Suc.prems by simp
  show ?case
  proof (cases "check_file_exist w ?abs")
    case (Inl e)
    show ?thesis by (rule same) (simp only: step Inl cases)
  next
    case ok: (Inr u)
    show ?thesis
    proof (cases bad)
      case True
      then have b: "bad = True" by simp
      show ?thesis by (rule same) (simp only: step ok b cases)
    next
      case False
      then have b: "bad = False" by simp
      obtain res s1 where rc: "read_config w ?abs s = (res, s1)"
        by (cases "read_config w ?abs s")
      show ?thesis
      proof (cases res)
        case (Inl e)
        show ?thesis by (rule same) (simp only: step ok b rc Inl cases)
      next
        case (Inr config)
        show ?thesis
        proof (cases "map_of config ''_base_''")
          case None
          show ?thesis by (rule same) (simp only: step ok b rc Inr None cases)
        next
          case (Some bn)
          have unfold: "parse_backtest_config (Suc m) w path s
              = merge_bases m w ?abs (base_names bn) (pop_key ''_base_'' config) s1" for m
            by (simp only: step ok b rc Inr Some cases)
          from Suc.prems
          have "merge_bases n w ?abs (base_names bn) (pop_key ''_base_'' config) s1 = Some r"
            by (simp only: unfold)
          then have "merge_bases (Suc n) w ?abs (base_names bn) (pop_key ''_base_'' config) s1 = Some r"
            using Suc.IH by (rule merge_bases_more_depth[rotated])
          then show ?thesis by (simp only: unfold)
        qed
      qed
    qed
  qed
qed

lemma parse_enough_depth:
  "parse_backtest_config n w path s = Some r \<Longrightarrow>
   parse_backtest_config (n + m) w path s = Some r"
  by (induction m) (simp_all add: parse_more_depth del: parse_backtest_config.simps)

section \<open>Claims about the loader\<close>

lemmas example_defs =
  example_world_def example_sys_def example_content_def example_files_def
  posix_abspath_def posix_join_def posix_dirname_def posix_splitext_def
  startswith_def endswith_def check_file_exist_def read_config_def import_module_def
  base_names_def



text \<open>
  Claim C8 says that the error for a missing file carries the absolute path, and that the
  error for an extension outside \<open>.py\<close>, \<open>.json\<close>, \<open>.yaml\<close>, \<open>.yml\<close> names the extension.
  The second message is a constant: for the file \<open>notes.txt\<close>, whose extension is
  \<open>.txt\<close>, it is \<open>Only py/yml/yaml/json type are supported now!\<close>, in which \<open>.txt\<close> does
  not occur.
\<close>

theorem parse_unsupported_extension_counterexample:
  "snd (os_splitext example_world (os_abspath example_world ''notes.txt'')) = ''.txt'' \<and>
   parse_backtest_config 1 example_world ''notes.txt'' example_sys
     = Some (Inl (IOError ''Only py/yml/yaml/json type are supported now!''), example_sys) \<and>
   \<not> str_contains ''Only py/yml/yaml/json type are supported now!'' ''.txt''"
  by (simp add: example_defs)

text \<open>
  Claim C8, amended: on a path that is not an existing file the loader raises
  \<open>FileNotFoundError\<close> with a message that contains the absolute path; on an existing file
  whose extension is outside the four it raises \<open>IOError\<close> with the fixed message
  \<open>Only py/yml/yaml/json type are supported now!\<close>, which lists the supported formats and
  is the same for every extension. Neither touches the interpreter state.
\<close>

theorem parse_backtest_config_errors:
  "(\<not> os_isfile w (os_abspath w path) \<longrightarrow>
      (\<exists>msg. parse_backtest_config (Suc n) w path s = Some (Inl (FileNotFoundError msg), s) \<and>
             str_contains msg (os_abspath w path))) \<and>
   (os_isfile w (os_abspath w path) \<and>
    snd (os_splitext w (os_abspath w path)) \<notin> set [''.py'', ''.json'', ''.yaml'', ''.yml''] \<longrightarrow>
      parse_backtest_config (Suc n) w path s
        = Some (Inl (IOError ''Only py/yml/yaml/json type are supported now!''), s))"
proof (intro conjI impI)
  let ?abs = "os_abspath w path"
  let ?msg = "''file '' @ [CHR 0x22] @ ?abs @ [CHR 0x22] @ '' does not exist''"
  assume "\<not> os_isfile w ?abs"
  then have "parse_backtest_config (Suc n) w path s = Some (Inl (FileNotFoundError ?msg), s)"
    by (simp add: check_file_exist_def Let_def)
  moreover have "str_contains ((''file '' @ [CHR 0x22]) @ ?abs @ ([CHR 0x22] @ '' does not exist'')) ?abs"
    by (rule str_contains_infix)
  then have "str_contains ?msg ?abs" by simp
  ultimately show "\<exists>msg. parse_backtest_config (Suc n) w path s
                       = Some (Inl (FileNotFoundError msg), s) \<and> str_contains msg ?abs"
    by blast
next
  assume "os_isfile w (os_abspath w path) \<and>
    snd (os_splitext w (os_abspath w path)) \<notin> set [''.py'', ''.json'', ''.yaml'', ''.yml'']"
  then show "parse_backtest_config (Suc n) w path s
        = Some (Inl (IOError ''Only py/yml/yaml/json type are supported now!''), s)"
    by (simp add: check_file_exist_def Let_def)
qed

theorem parse_backtest_config_errors_witness:
  "\<not> os_isfile example_world (os_abspath example_world ''missing.yaml'') \<and>
   os_abspath example_world ''missing.yaml'' = ''/cfg/missing.yaml'' \<and>
   (\<exists>msg. parse_backtest_config 1 example_world ''missing.yaml'' example_sys
             = Some (Inl (FileNotFoundError msg), example_sys) \<and>
          str_contains msg ''/cfg/missing.yaml'') \<and>
   os_isfile example_world (os_abspath example_world ''notes.txt'') \<and>
   snd (os_splitext example_world (os_abspath example_world ''notes.txt''))
     \<notin> set [''.py'', ''.json'', ''.yaml'', ''.yml''] \<and>
   parse_backtest_config 1 example_world ''notes.txt'' example_sys
     = Some (Inl (IOError ''Only py/yml/yaml/json type are supported now!''), example_sys)"
proof -
  have a: "os_abspath example_world ''missing.yaml'' = ''/cfg/missing.yaml''"
    by (simp add: example_defs)
  have m: "\<not> os_isfile example_world (os_abspath example_world ''missing.yaml'')"
    unfolding a by (simp add: example_defs)
  have f: "os_isfile example_world (os_abspath example_world ''notes.txt'')"
    by (simp add: example_defs)
  have e: "snd (os_splitext example_world (os_abspath example_world ''notes.txt''))
             \<notin> set [''.py'', ''.json'', ''.yaml'', ''.yml'']"
    by (simp add: example_defs)
  from parse_backtest_config_errors[of example_world "''missing.yaml''" 0 example_sys] m
  have 1: "\<exists>msg. parse_backtest_config 1 example_world ''missing.yaml'' example_sys
             = Some (Inl (FileNotFoundError msg), example_sys) \<and>
          str_contains msg ''/cfg/missing.yaml''"
    unfolding a One_nat_def by blast
  from parse_backtest_config_errors[of example_world "''notes.txt''" 0 example_sys] f e
  have 2: "parse_backtest_config 1 example_world ''notes.txt'' example_sys
     = Some (Inl (IOError ''Only py/yml/yaml/json type are supported now!''), example_sys)"
    unfolding One_nat_def by blast
  from m a 1 f e 2 show ?thesis by (intro conjI)
qed

text \<open>
  Claim C9 says that the entry pushed onto \<open>sys.path\<close> and the entry of \<open>sys.modules\<close> are
  gone when the loader returns, also when the import raises. The code pops and deletes
  after the import, outside any \<open>try\<close>: when the module raises, \<open>sys.path\<close> keeps the
  temporary directory at its head. The file \<open>broken.py\<close> of the example raises on import.
\<close>

theorem parse_broken_module_keeps_sys_path:
  "parse_backtest_config 1 example_world ''broken.py'' example_sys
     = Some (Inl (ImportFailure ''ZeroDivisionError''),
             \<lparr>sys_path = [''/tmp/tmpdir'', ''/usr/lib/python3''], sys_modules = [(''os'', [])]\<rparr>) \<and>
   example_sys = \<lparr>sys_path = [''/usr/lib/python3''], sys_modules = [(''os'', [])]\<rparr> \<and>
   parse_backtest_config 1 example_world ''good.py'' example_sys
     = Some (Inr [(''x'', VInt 1)], example_sys)"
  by (simp add: example_defs Let_def)

section \<open>Assembling the backtest configuration\<close>






text \<open>
  What the spec asks of the conversion: a list that is the value of a key becomes the
  tuple of its elements, a mapping that is the value of a key is converted in turn, any
  other value stays. \<open>no_list_field\<close> holds of the mappings in which no key, at any depth
  of nested mappings, has a list as its value.
\<close>

fun as_tuple :: "val \<Rightarrow> val" where
  "as_tuple (VList xs) = VTuple xs"
| "as_tuple (VDict d) = VDict (map (\<lambda>kv. (fst kv, as_tuple (snd kv))) d)"
| "as_tuple v = v"


subsection \<open>Properties of the assembly\<close>



lemma as_tuple_keys: "map fst (dict_items (as_tuple (VDict d))) = map fst d"
  by simp

lemma as_tuple_lookup:
  "map_of (dict_items (as_tuple (VDict d))) k = map_option as_tuple (map_of d k)"
  by (induction d) auto



end
